theory Spec2Isabelle
  imports Main "HOL-Library.Word"
begin

section \<open>C strings and the libc string functions scrub.c calls\<close>

text \<open>
  A C string is modelled by the list of its characters before the terminating NUL, so a
  \<open>char*\<close> argument of the source is a \<^typ>\<open>string\<close>. A pointer into a string is
  modelled by what the code does with it: \<open>strrchr\<close> returns the suffix that starts at the
  character found (or \<open>None\<close> for the null pointer), \<open>strchrnul\<close> returns the offset of
  its result from the start of the string.
\<close>

text \<open>\<open>strcmp\<close>: zero exactly for equal strings, otherwise the sign of the first difference
  of the bytes.\<close>

fun strcmp :: "string \<Rightarrow> string \<Rightarrow> int" where
  "strcmp [] [] = 0"
| "strcmp [] (y # ys) = - 1"
| "strcmp (x # xs) [] = 1"
| "strcmp (x # xs) (y # ys) =
     (if x = y then strcmp xs ys
      else if (of_char x :: nat) < of_char y then - 1 else 1)"

text \<open>\<open>strrchr(s, c)\<close> for a character \<open>c\<close> other than NUL: the suffix of \<open>s\<close> beginning at
  the last occurrence of \<open>c\<close>, \<open>None\<close> when \<open>c\<close> does not occur.\<close>

fun strrchr :: "string \<Rightarrow> char \<Rightarrow> string option" where
  "strrchr [] c = None"
| "strrchr (x # xs) c =
     (case strrchr xs c of
        Some r \<Rightarrow> Some r
      | None \<Rightarrow> if x = c then Some (x # xs) else None)"

text \<open>\<open>strchrnul(s, c)\<close>: a pointer to the first occurrence of \<open>c\<close>, or to the terminating
  NUL when there is none; the model returns the distance of that pointer from \<open>s\<close>.\<close>

fun strchrnul :: "string \<Rightarrow> char \<Rightarrow> nat" where
  "strchrnul [] c = 0"
| "strchrnul (x # xs) c = (if x = c then 0 else Suc (strchrnul xs c))"

text \<open>\<open>basename\<close> of \<open>libgen.h\<close> (the file includes it, so the name is the POSIX function and
  not the GNU one of \<open>string.h\<close>): trailing slashes are dropped, the result is the last
  component; \<open>"."\<close> for the empty string and \<open>"/"\<close> for a string of slashes.\<close>

definition basename :: "string \<Rightarrow> string" where
  "basename path =
     (if path = [] then ''.''
      else let q = rev (dropWhile (\<lambda>c. c = CHR ''/'') (rev path))
           in if q = [] then ''/''
              else rev (takeWhile (\<lambda>c. c \<noteq> CHR ''/'') (rev q)))"

section \<open>Program configuration\<close>

text \<open>The structure \<open>Configuration\<close>. The two arrays with their lengths are lists; the
  \<open>...Len\<close> fields are the lengths of the lists.\<close>

record Configuration =
  verbose :: bool
  simulate :: bool
  preserveHidden :: bool
  preserveSpecial :: bool
  clobberExtensions :: "string list"
  clobberNames :: "string list"

definition Configuration_new :: Configuration where
  "Configuration_new =
     \<lparr>verbose = False, simulate = False, preserveHidden = False, preserveSpecial = False,
      clobberExtensions = [], clobberNames = []\<rparr>"

text \<open>The lists are given: \<open>Configuration_clobberExtension\<close> and
  \<open>Configuration_clobberName\<close>, which fill them while the options are read, are not part
  of the model.\<close>

text \<open>The linear searches, with the index of the source's \<open>while\<close> loop.\<close>

function shouldClobberExtension_from :: "Configuration \<Rightarrow> string \<Rightarrow> nat \<Rightarrow> bool" where
  "shouldClobberExtension_from config extension index =
     (if index < length (clobberExtensions config) then
        (if strcmp extension (clobberExtensions config ! index) = 0 then True
         else shouldClobberExtension_from config extension (index + 1))
      else False)"
  by pat_completeness auto
termination
  by (relation "measure (\<lambda>(config, extension, index). length (clobberExtensions config) - index)") auto

declare shouldClobberExtension_from.simps [simp del]

definition Configuration_shouldClobberExtension :: "Configuration \<Rightarrow> string \<Rightarrow> bool" where
  "Configuration_shouldClobberExtension config extension =
     shouldClobberExtension_from config extension 0"

function shouldClobberName_from :: "Configuration \<Rightarrow> string \<Rightarrow> nat \<Rightarrow> bool" where
  "shouldClobberName_from config name index =
     (if index < length (clobberNames config) then
        (if strcmp name (clobberNames config ! index) = 0 then True
         else shouldClobberName_from config name (index + 1))
      else False)"
  by pat_completeness auto
termination
  by (relation "measure (\<lambda>(config, name, index). length (clobberNames config) - index)") auto

declare shouldClobberName_from.simps [simp del]

definition Configuration_shouldClobberName :: "Configuration \<Rightarrow> string \<Rightarrow> bool" where
  "Configuration_shouldClobberName config name = shouldClobberName_from config name 0"

section \<open>Policy\<close>

definition File_shouldClobber :: "Configuration \<Rightarrow> string \<Rightarrow> bool" where
  "File_shouldClobber config basename' =
     (if Configuration_shouldClobberName config basename' then True
      else (case strrchr basename' CHR ''.'' of
              Some extensionStart \<Rightarrow> Configuration_shouldClobberExtension config (tl extensionStart)
            | None \<Rightarrow> False))"

text \<open>\<open>(basename - strchrnul(basename, '.')) == 0\<close>: the difference of the two pointers is
  minus the offset \<open>strchrnul\<close> found.\<close>

definition File_isHidden :: "string \<Rightarrow> bool" where
  "File_isHidden basename' = (- int (strchrnul basename' CHR ''.'') = 0)"

section \<open>The file system the program runs on\<close>

text \<open>
  The system calls of the source (\<open>stat\<close>, \<open>opendir\<close>, \<open>readdir\<close>, \<open>closedir\<close>, \<open>rmdir\<close>,
  \<open>unlink\<close>) act on a tree: the file system, with the process running in its root
  directory, so that a relative and an absolute path name the same entry. A directory
  carries what decides the outcome of those calls: whether it can be read (\<open>opendir\<close>
  fails with \<open>EACCES\<close> otherwise), whether entries can be removed from it (\<open>rmdir\<close> and
  \<open>unlink\<close> of an entry fail with \<open>EACCES\<close> otherwise), and whether its file system
  reports entry types to \<open>readdir\<close> (\<open>d_type\<close> is \<open>DT_UNKNOWN\<close> otherwise). Every directory
  can be searched. A symbolic link carries its target.
\<close>

datatype dtype = DT_UNKNOWN | DT_FIFO | DT_CHR | DT_DIR | DT_BLK | DT_REG | DT_LNK | DT_SOCK | DT_WHT

datatype kind = Regular | Fifo | CharDevice | BlockDevice | SymLink string | Socket

datatype node =
    File kind
  | Dir (readable: bool) (writable: bool) (typed: bool) (entries: "(string \<times> node) list")

record dirent =
  d_name :: string
  d_type :: dtype

record world =
  fs :: node
  errno :: int
  stderr :: "string list"
  open_dirs :: nat
  junk :: "nat \<Rightarrow> bool"
  failed_stats :: nat

text \<open>The \<open>errno\<close> values of Linux that the model's system calls set, and the number of
  symbolic links the kernel follows while it resolves one path.\<close>

definition ENOENT :: int where "ENOENT = 2"
definition EACCES :: int where "EACCES = 13"
definition EBUSY :: int where "EBUSY = 16"
definition ENOTDIR :: int where "ENOTDIR = 20"
definition EISDIR :: int where "EISDIR = 21"
definition EINVAL :: int where "EINVAL = 22"
definition ENOTEMPTY :: int where "ENOTEMPTY = 39"
definition ELOOP :: int where "ELOOP = 40"

definition MAXSYMLINKS :: nat where "MAXSYMLINKS = 40"

fun kind_dtype :: "kind \<Rightarrow> dtype" where
  "kind_dtype Regular = DT_REG"
| "kind_dtype Fifo = DT_FIFO"
| "kind_dtype CharDevice = DT_CHR"
| "kind_dtype BlockDevice = DT_BLK"
| "kind_dtype (SymLink target) = DT_LNK"
| "kind_dtype Socket = DT_SOCK"

fun node_dtype :: "node \<Rightarrow> dtype" where
  "node_dtype (File k) = kind_dtype k"
| "node_dtype (Dir r w t es) = DT_DIR"

fun is_dir :: "node \<Rightarrow> bool" where
  "is_dir (File k) = False"
| "is_dir (Dir r w t es) = True"

fun link_target :: "node \<Rightarrow> string option" where
  "link_target (File (SymLink target)) = Some target"
| "link_target n = None"

text \<open>A path string is split at every slash. Its names are the pieces that are not
  empty; \<open>"."\<close> and \<open>".."\<close> are among them. A path that ends in a slash must lead to a
  directory, as if it ended in \<open>"/."\<close>.\<close>

fun split_path :: "string \<Rightarrow> string list" where
  "split_path [] = [[]]"
| "split_path (x # xs) =
     (if x = CHR ''/'' then [] # split_path xs
      else (case split_path xs of
              [] \<Rightarrow> [[x]]
            | c # cs \<Rightarrow> (x # c) # cs))"

definition names :: "string \<Rightarrow> string list" where
  "names path = filter (\<lambda>c. c \<noteq> []) (split_path path)"

definition trailing_slash :: "string \<Rightarrow> bool" where
  "trailing_slash path \<longleftrightarrow> path \<noteq> [] \<and> last path = CHR ''/''"

definition parse :: "string \<Rightarrow> string list" where
  "parse path = names path @ (if trailing_slash path then [''.''] else [])"

text \<open>A location is the list of the names of the directories from the root down to an
  entry: \<open>path_lookup\<close> gives the entry at a location.\<close>

fun path_lookup :: "node \<Rightarrow> string list \<Rightarrow> int + node" where
  "path_lookup n [] = Inr n"
| "path_lookup (File k) (c # cs) = Inl ENOTDIR"
| "path_lookup (Dir r w t es) (c # cs) =
     (case map_of es c of
        None \<Rightarrow> Inl ENOENT
      | Some n \<Rightarrow> path_lookup n cs)"

text \<open>The walk of the kernel along the names of a path, from the directory at the
  location \<open>cur\<close>: \<open>"."\<close> stays, \<open>".."\<close> goes to the parent (the root is its own parent),
  a symbolic link is replaced by its target, also when it is the last name, and at most
  \<open>fuel\<close> links are followed. The result is the location reached, with the number of
  links that may still be followed.\<close>

function namei :: "nat \<Rightarrow> node \<Rightarrow> string list \<Rightarrow> string list \<Rightarrow> int + (nat \<times> string list)" where
  "namei fuel root cur [] = Inr (fuel, cur)"
| "namei fuel root cur (c # cs) =
     (case path_lookup root cur of
        Inl e \<Rightarrow> Inl e
      | Inr (File k) \<Rightarrow> Inl ENOTDIR
      | Inr (Dir r w t es) \<Rightarrow>
          if c = ''.'' then namei fuel root cur cs
          else if c = ''..'' then namei fuel root (butlast cur) cs
          else
            (case map_of es c of
               None \<Rightarrow> Inl ENOENT
             | Some n \<Rightarrow>
                 (case link_target n of
                    Some target \<Rightarrow>
                      if fuel = 0 then Inl ELOOP
                      else if target = [] then Inl ENOENT
                      else namei (fuel - 1) root (if hd target = CHR ''/'' then [] else cur)
                             (parse target @ cs)
                  | None \<Rightarrow>
                      if is_dir n then namei fuel root (cur @ [c]) cs
                      else if cs = [] then Inr (fuel, cur @ [c])
                      else Inl ENOTDIR)))"
  by pat_completeness auto
termination
  by (relation "measures [\<lambda>(fuel, root, cur, cs). fuel, \<lambda>(fuel, root, cur, cs). length cs]") auto

text \<open>What a path leads to, for \<open>stat\<close> and \<open>opendir\<close>.\<close>

definition resolve :: "node \<Rightarrow> string \<Rightarrow> int + node" where
  "resolve root path =
     (if path = [] then Inl ENOENT
      else (case namei MAXSYMLINKS root [] (parse path) of
              Inl e \<Rightarrow> Inl e
            | Inr (fuel, p) \<Rightarrow> path_lookup root p))"

text \<open>The tree without the entry at a location.\<close>

fun remove_entry :: "string list \<Rightarrow> node \<Rightarrow> node" where
  "remove_entry [] n = n"
| "remove_entry (c # cs) (File k) = File k"
| "remove_entry [c] (Dir r w t es) = Dir r w t (filter (\<lambda>e. fst e \<noteq> c) es)"
| "remove_entry (c # c' # cs) (Dir r w t es) =
     Dir r w t (map (\<lambda>e. (fst e, if fst e = c then remove_entry (c' # cs) (snd e) else snd e)) es)"

text \<open>\<open>stat(path, &statBuffer)\<close>: the return value, and what \<open>S_ISDIR(statBuffer.st_mode)\<close>
  reads afterwards. The source never initialises the buffer and never tests the return
  value, so after a failed call the macro reads whatever the buffer held: the world's
  \<open>junk\<close> gives that value for each failed call in turn.\<close>

definition sys_stat :: "string \<Rightarrow> world \<Rightarrow> (int \<times> bool) \<times> world" where
  "sys_stat path s =
     (case resolve (fs s) path of
        Inr n \<Rightarrow> ((0, is_dir n), s)
      | Inl e \<Rightarrow> ((- 1, junk s (failed_stats s)),
                  s\<lparr>errno := e, failed_stats := failed_stats s + 1\<rparr>))"

text \<open>\<open>opendir\<close>: the stream \<open>readdir\<close> will deliver, \<open>"."\<close> and \<open>".."\<close> first, or \<open>None\<close> for
  the null pointer. The stream holds the entries the directory has when it is opened.\<close>

definition dirent_of :: "bool \<Rightarrow> string \<times> node \<Rightarrow> dirent" where
  "dirent_of t e = \<lparr>d_name = fst e, d_type = (if t then node_dtype (snd e) else DT_UNKNOWN)\<rparr>"

definition dir_stream :: "bool \<Rightarrow> (string \<times> node) list \<Rightarrow> dirent list" where
  "dir_stream t es =
     \<lparr>d_name = ''.'', d_type = (if t then DT_DIR else DT_UNKNOWN)\<rparr> #
     \<lparr>d_name = ''..'', d_type = (if t then DT_DIR else DT_UNKNOWN)\<rparr> #
     map (dirent_of t) es"

definition sys_opendir :: "string \<Rightarrow> world \<Rightarrow> dirent list option \<times> world" where
  "sys_opendir path s =
     (case resolve (fs s) path of
        Inl e \<Rightarrow> (None, s\<lparr>errno := e\<rparr>)
      | Inr (File k) \<Rightarrow> (None, s\<lparr>errno := ENOTDIR\<rparr>)
      | Inr (Dir r w t es) \<Rightarrow>
          if r then (Some (dir_stream t es), s\<lparr>open_dirs := open_dirs s + 1\<rparr>)
          else (None, s\<lparr>errno := EACCES\<rparr>))"

definition sys_closedir :: "world \<Rightarrow> world" where
  "sys_closedir s = s\<lparr>open_dirs := open_dirs s - 1\<rparr>"

text \<open>\<open>rmdir\<close> and \<open>unlink\<close> walk to the directory that holds the last name of the path and
  look the last name up there, without following it when it is a symbolic link. The
  result is the entry to act on, as the location of the directory, the name and the
  node, or the error of the walk.\<close>

definition victim :: "node \<Rightarrow> string \<Rightarrow> int + (string list \<times> bool \<times> string \<times> node option)" where
  "victim root path =
     (case namei MAXSYMLINKS root [] (butlast (names path)) of
        Inl e \<Rightarrow> Inl e
      | Inr (fuel, p) \<Rightarrow>
          (case path_lookup root p of
             Inl e \<Rightarrow> Inl e
           | Inr (File k) \<Rightarrow> Inl ENOTDIR
           | Inr (Dir r w t es) \<Rightarrow> Inr (p, w, last (names path), map_of es (last (names path)))))"

text \<open>\<open>rmdir\<close>: the root is busy, \<open>"."\<close> as the last name is invalid and \<open>".."\<close> is not
  empty; permission to remove is checked before the kind of the entry, and that before
  its emptiness.\<close>

definition sys_rmdir :: "string \<Rightarrow> world \<Rightarrow> int \<times> world" where
  "sys_rmdir path s =
     (if path = [] then (- 1, s\<lparr>errno := ENOENT\<rparr>)
      else if names path = [] then (- 1, s\<lparr>errno := EBUSY\<rparr>)
      else
        (case victim (fs s) path of
           Inl e \<Rightarrow> (- 1, s\<lparr>errno := e\<rparr>)
         | Inr (p, w, name, entry) \<Rightarrow>
             if name = ''.'' then (- 1, s\<lparr>errno := EINVAL\<rparr>)
             else if name = ''..'' then (- 1, s\<lparr>errno := ENOTEMPTY\<rparr>)
             else
               (case entry of
                  None \<Rightarrow> (- 1, s\<lparr>errno := ENOENT\<rparr>)
                | Some n \<Rightarrow>
                    if \<not> w then (- 1, s\<lparr>errno := EACCES\<rparr>)
                    else
                      (case n of
                         File k \<Rightarrow> (- 1, s\<lparr>errno := ENOTDIR\<rparr>)
                       | Dir r' w' t' es' \<Rightarrow>
                           if es' \<noteq> [] then (- 1, s\<lparr>errno := ENOTEMPTY\<rparr>)
                           else (0, s\<lparr>fs := remove_entry (p @ [name]) (fs s)\<rparr>)))))"

text \<open>\<open>unlink\<close>: a last name that is not the name of an entry (\<open>"."\<close>, \<open>".."\<close>, the root) is
  a directory; after a trailing slash the kind of the entry decides the error, before
  any permission is checked.\<close>

definition sys_unlink :: "string \<Rightarrow> world \<Rightarrow> int \<times> world" where
  "sys_unlink path s =
     (if path = [] then (- 1, s\<lparr>errno := ENOENT\<rparr>)
      else if names path = [] then (- 1, s\<lparr>errno := EISDIR\<rparr>)
      else
        (case victim (fs s) path of
           Inl e \<Rightarrow> (- 1, s\<lparr>errno := e\<rparr>)
         | Inr (p, w, name, entry) \<Rightarrow>
             if name = ''.'' \<or> name = ''..'' then (- 1, s\<lparr>errno := EISDIR\<rparr>)
             else
               (case entry of
                  None \<Rightarrow> (- 1, s\<lparr>errno := ENOENT\<rparr>)
                | Some n \<Rightarrow>
                    if trailing_slash path
                    then (- 1, s\<lparr>errno := (if is_dir n then EISDIR else ENOTDIR)\<rparr>)
                    else if \<not> w then (- 1, s\<lparr>errno := EACCES\<rparr>)
                    else if is_dir n then (- 1, s\<lparr>errno := EISDIR\<rparr>)
                    else (0, s\<lparr>fs := remove_entry (p @ [name]) (fs s)\<rparr>))))"

text \<open>Well-formed trees: the names in a directory are distinct, and each is a file name
  (not empty, without a slash, neither \<open>"."\<close> nor \<open>".."\<close>). The height of a tree bounds
  the depth of the recursion of \<open>Directory_process\<close>.\<close>

definition valid_name :: "string \<Rightarrow> bool" where
  "valid_name n = (n \<noteq> [] \<and> CHR ''/'' \<notin> set n \<and> n \<noteq> ''.'' \<and> n \<noteq> ''..'')"

fun wf_node :: "node \<Rightarrow> bool" where
  "wf_node (File k) = True"
| "wf_node (Dir r w t es) =
     (distinct (map fst es) \<and> (\<forall>e \<in> set es. valid_name (fst e) \<and> wf_node (snd e)))"

fun height :: "node \<Rightarrow> nat" where
  "height (File k) = 0"
| "height (Dir r w t es) = Suc (Max (insert 0 ((\<lambda>e. height (snd e)) ` set es)))"

text \<open>The height of what is at a location and of what a path leads to, and the trees
  that a run can make of a tree: nothing is ever added, and what is left is of the kind
  it was.\<close>

definition hat :: "node \<Rightarrow> string list \<Rightarrow> nat" where
  "hat t q = (case path_lookup t q of Inr n \<Rightarrow> height n | Inl e \<Rightarrow> 0)"

definition hat_path :: "node \<Rightarrow> string \<Rightarrow> nat" where
  "hat_path t path = (case resolve t path of Inr n \<Rightarrow> height n | Inl e \<Rightarrow> 0)"

fun alike :: "node \<Rightarrow> node \<Rightarrow> bool" where
  "alike (File k) (File k') = (k = k')"
| "alike (Dir r w t es) (Dir r' w' t' es') = True"
| "alike n n' = False"

definition shrinks :: "node \<Rightarrow> node \<Rightarrow> bool" where
  "shrinks t t' \<longleftrightarrow>
     (wf_node t \<longrightarrow> wf_node t') \<and> (\<forall>q. hat t' q \<le> hat t q) \<and>
     (\<forall>q n'. path_lookup t' q = Inr n' \<longrightarrow> (\<exists>n. path_lookup t q = Inr n \<and> alike n n'))"

section \<open>Diagnostics\<close>

text \<open>\<open>%u\<close> of \<open>printf\<close>.\<close>

fun decimal :: "nat \<Rightarrow> string" where
  "decimal n =
     (if n < 10 then [char_of (48 + n)]
      else decimal (n div 10) @ [char_of (48 + n mod 10)])"

declare decimal.simps [simp del]

type_synonym u32 = "32 word"

definition ENONE :: u32 where "ENONE = 0"

text \<open>An \<open>int\<close> passed for \<open>%u\<close> is printed as the unsigned value of its 32 bits.\<close>

definition fmt_u :: "int \<Rightarrow> string" where
  "fmt_u i = decimal (unat (word_of_int i :: u32))"

definition Runtime_putError :: "string \<Rightarrow> world \<Rightarrow> world" where
  "Runtime_putError line s = s\<lparr>stderr := stderr s @ [line]\<rparr>"

definition Runtime_verbose :: "Configuration \<Rightarrow> string \<Rightarrow> world \<Rightarrow> world" where
  "Runtime_verbose config line s =
     (if verbose config then s\<lparr>stderr := stderr s @ [line]\<rparr> else s)"

definition help_text :: "string \<Rightarrow> string" where
  "help_text executableName =
     executableName @ '' - try to clean a directory tree\<newline>'' @
     ''\<newline>'' @
     ''-h     --help\<newline>'' @
     ''   Print help (this message)\<newline>'' @
     ''\<newline>'' @
     ''-cext  --clobber-extension=ext\<newline>'' @
     ''   Add `ext` to the list of extensions to be deleted\<newline>'' @
     ''\<newline>'' @
     ''-Cname --clobber-name=name\<newline>'' @
     ''   Add `name` to the list of file names to be deleted\<newline>'' @
     ''\<newline>'' @
     ''-H     --preserve-hidden\<newline>'' @
     ''   Rather than treating hidden directories as normal directories, halt when one is discovered\<newline>'' @
     ''\<newline>'' @
     ''--preserve-special\<newline>'' @
     ''   Do not delete special files (such as sockets, block devices, and pipes)\<newline>'' @
     ''\<newline>'' @
     ''--simulate\<newline>'' @
     ''   Rather than calling unlink() and the like, output a message\<newline>'' @
     ''\<newline>'' @
     ''--verbose\<newline>'' @
     ''   Verbose logging output\<newline>''"

definition Runtime_printHelp :: "string \<Rightarrow> world \<Rightarrow> world" where
  "Runtime_printHelp executableName s = Runtime_putError (help_text executableName) s"

section \<open>Implementation: deleting things\<close>

text \<open>\<open>File_unlink\<close> is declared \<open>u32\<close> and returns the \<open>int\<close> of \<open>rmdir\<close> or \<open>unlink\<close>: the
  conversion makes \<open>-1\<close> the word \<open>0xFFFFFFFF\<close>, which is what the callers' \<open>== -1\<close>
  compares with.\<close>

definition File_unlink :: "Configuration \<Rightarrow> string \<Rightarrow> world \<Rightarrow> u32 \<times> world" where
  "File_unlink config path s =
     (if simulate config then
        (0, Runtime_putError (''unlink('' @ path @ '')\<newline>'') s)
      else
        (case sys_stat path s of
           ((rc, isdir), s1) \<Rightarrow>
             if isdir then (case sys_rmdir path s1 of (r, s2) \<Rightarrow> (word_of_int r, s2))
             else (case sys_unlink path s1 of (r, s2) \<Rightarrow> (word_of_int r, s2))))"

text \<open>The loop of \<open>Directory_isEmpty\<close>: \<open>index\<close> after the loop, for the entries \<open>readdir\<close>
  still has to deliver.\<close>

fun isEmpty_count :: "dirent list \<Rightarrow> nat \<Rightarrow> nat" where
  "isEmpty_count [] index = index"
| "isEmpty_count (entry # dir) index =
     (if index + 1 > 2 then index + 1 else isEmpty_count dir (index + 1))"

definition Directory_isEmpty :: "string \<Rightarrow> world \<Rightarrow> bool \<times> world" where
  "Directory_isEmpty path s =
     (case sys_opendir path s of
        (Some dir, s1) \<Rightarrow> (isEmpty_count dir 0 \<le> 2, sys_closedir s1)
      | (None, s1) \<Rightarrow>
          (False, Runtime_putError
             (''Directory_isEmpty('' @ path @ ''): could not open directory: ERRNO '' @
                fmt_u (errno s1) @ ''\<newline>'') s1))"

text \<open>\<open>File_process\<close>. The source copies the path for \<open>basename\<close> into a buffer that is one
  byte short of it; the model takes the copy to hold the path.\<close>

definition File_process :: "Configuration \<Rightarrow> string \<Rightarrow> world \<Rightarrow> int \<times> world" where
  "File_process config path s =
     (let fileName = basename path;
          shouldClobber = File_shouldClobber config fileName
      in if shouldClobber then
           (case File_unlink config path s of
              (r, s1) \<Rightarrow>
                if r = - 1 then
                  (errno s1, Runtime_putError
                     (''Could not unlink '' @ path @ '': ERRNO '' @ fmt_u (errno s1) @ ''\<newline>'') s1)
                else (sint ENONE, s1))
         else (sint ENONE, s))"

text \<open>The body of the loop of \<open>Directory_process\<close> is given in three parts, one for each
  group of \<open>case\<close> labels of its \<open>switch\<close>. The recursive call is the parameter
  \<open>recurse\<close>.\<close>

text \<open>\<open>case DT_UNKNOWN: case DT_REG:\<close>\<close>

definition Directory_case_REG :: "Configuration \<Rightarrow> string \<Rightarrow> world \<Rightarrow> world" where
  "Directory_case_REG config currentEntryPath s =
     (case File_process config currentEntryPath s of
        (r, s1) \<Rightarrow>
          let returnStatus = (word_of_int r :: u32)
          in if returnStatus \<noteq> ENONE then
               Runtime_verbose config
                 (''File_process('' @ currentEntryPath @ '') failed: ERRNO '' @
                    decimal (unat returnStatus) @ ''\<newline>'') s1
             else s1)"

text \<open>\<open>case DT_BLK: case DT_CHR: case DT_FIFO: case DT_LNK: case DT_SOCK:\<close> the \<open>break\<close>
  under \<open>preserveSpecial\<close>, and otherwise the fall through to the labels above.\<close>

definition Directory_case_special :: "Configuration \<Rightarrow> string \<Rightarrow> world \<Rightarrow> world" where
  "Directory_case_special config currentEntryPath s =
     (if preserveSpecial config then s else Directory_case_REG config currentEntryPath s)"

text \<open>\<open>case DT_DIR:\<close>\<close>

definition Directory_case_DIR ::
  "(string \<Rightarrow> world \<Rightarrow> (int \<times> world) option) \<Rightarrow> Configuration \<Rightarrow> string \<Rightarrow> string \<Rightarrow> world
     \<Rightarrow> world option" where
  "Directory_case_DIR recurse config currentEntryPath name s =
     (if \<not> (preserveHidden config \<and> File_isHidden name) then
        (case recurse currentEntryPath s of
           None \<Rightarrow> None
         | Some (r, s1) \<Rightarrow>
             let completionState = (word_of_int r :: u32)
             in if completionState = ENONE then
                  (case Directory_isEmpty currentEntryPath s1 of
                     (True, s2) \<Rightarrow>
                       (case File_unlink config currentEntryPath s2 of
                          (u, s3) \<Rightarrow>
                            if u = - 1 then
                              Some (Runtime_putError
                                (''Could not unlink directory '' @ currentEntryPath @
                                   '': ERRNO '' @ fmt_u (errno s3) @ ''\<newline>'') s3)
                            else Some s3)
                   | (False, s2) \<Rightarrow>
                       Some (Runtime_verbose config
                         (''Directory '' @ currentEntryPath @
                            '' is not empty. Not unlinking.\<newline>'') s2))
                else
                  Some (Runtime_putError
                    (''Could not process directory '' @ currentEntryPath @
                       '': ERRNO '' @ decimal (unat completionState) @ ''\<newline>'') s1))
      else Some s)"

text \<open>One round of the loop, for the entry \<open>readdir\<close> delivered: the \<open>continue\<close> for
  \<open>"."\<close> and \<open>".."\<close>, \<open>asprintf\<close>, and the \<open>switch\<close>, which has no \<open>default\<close>.\<close>

definition Directory_entry ::
  "(string \<Rightarrow> world \<Rightarrow> (int \<times> world) option) \<Rightarrow> Configuration \<Rightarrow> string \<Rightarrow> dirent \<Rightarrow> world
     \<Rightarrow> world option" where
  "Directory_entry recurse config path currentEntry s =
     (if strcmp (d_name currentEntry) ''.'' = 0 \<or> strcmp (d_name currentEntry) ''..'' = 0
      then Some s
      else
        let currentEntryPath = path @ ''/'' @ d_name currentEntry
        in case d_type currentEntry of
             DT_DIR \<Rightarrow> Directory_case_DIR recurse config currentEntryPath (d_name currentEntry) s
           | DT_BLK \<Rightarrow> Some (Directory_case_special config currentEntryPath s)
           | DT_CHR \<Rightarrow> Some (Directory_case_special config currentEntryPath s)
           | DT_FIFO \<Rightarrow> Some (Directory_case_special config currentEntryPath s)
           | DT_LNK \<Rightarrow> Some (Directory_case_special config currentEntryPath s)
           | DT_SOCK \<Rightarrow> Some (Directory_case_special config currentEntryPath s)
           | DT_UNKNOWN \<Rightarrow> Some (Directory_case_REG config currentEntryPath s)
           | DT_REG \<Rightarrow> Some (Directory_case_REG config currentEntryPath s)
           | DT_WHT \<Rightarrow> Some s)"

text \<open>The \<open>while\<close> loop over the entries \<open>readdir\<close> delivers.\<close>

fun Directory_loop ::
  "(string \<Rightarrow> world \<Rightarrow> (int \<times> world) option) \<Rightarrow> Configuration \<Rightarrow> string \<Rightarrow> dirent list \<Rightarrow> world
     \<Rightarrow> world option" where
  "Directory_loop recurse config path [] s = Some s"
| "Directory_loop recurse config path (currentEntry # dir) s =
     (case Directory_entry recurse config path currentEntry s of
        None \<Rightarrow> None
      | Some s' \<Rightarrow> Directory_loop recurse config path dir s')"

definition Directory_body ::
  "(string \<Rightarrow> world \<Rightarrow> (int \<times> world) option) \<Rightarrow> Configuration \<Rightarrow> string \<Rightarrow> world
     \<Rightarrow> (int \<times> world) option" where
  "Directory_body recurse config path s =
     (case sys_opendir path s of
        (Some dir, s1) \<Rightarrow>
          (case Directory_loop recurse config path dir s1 of
             None \<Rightarrow> None
           | Some s2 \<Rightarrow> Some (sint ENONE, sys_closedir s2))
      | (None, s1) \<Rightarrow> Some (sint (word_of_int (errno s1) :: u32), s1))"

text \<open>\<open>Directory_process\<close> calls itself for every subdirectory. The first argument bounds
  the depth of these calls; \<open>None\<close> says that the bound was reached.\<close>

primrec Directory_process ::
  "nat \<Rightarrow> Configuration \<Rightarrow> string \<Rightarrow> world \<Rightarrow> (int \<times> world) option" where
  "Directory_process 0 config path s = None"
| "Directory_process (Suc depth) config path s =
     Directory_body (Directory_process depth config) config path s"

section \<open>Entry point\<close>

text \<open>The second block of \<open>main\<close>, after the options are read into the configuration:
  \<open>files\<close> are the arguments left.\<close>

fun main_loop ::
  "nat \<Rightarrow> Configuration \<Rightarrow> string list \<Rightarrow> bool \<Rightarrow> world \<Rightarrow> (bool \<times> world) option" where
  "main_loop depth config [] dirty s = Some (dirty, s)"
| "main_loop depth config (fileName # files) dirty s =
     (case sys_stat fileName s of
        ((rc, isdir), s1) \<Rightarrow>
          if isdir then
            (case Directory_process depth config fileName
                    (Runtime_verbose config (''Processing directory '' @ fileName @ ''\<newline>'') s1) of
               None \<Rightarrow> None
             | Some (r, s2) \<Rightarrow>
                 (case Directory_isEmpty fileName s2 of
                    (isEmpty, s3) \<Rightarrow>
                      main_loop depth config files (if \<not> isEmpty then True else dirty) s3))
          else
            (case File_process config fileName
                    (Runtime_verbose config (''Processing node '' @ fileName @ ''\<newline>'') s1) of
               (r, s2) \<Rightarrow> main_loop depth config files dirty s2))"

definition main :: "nat \<Rightarrow> Configuration \<Rightarrow> string \<Rightarrow> string list \<Rightarrow> world \<Rightarrow> (int \<times> world) option" where
  "main depth runtimeConfig imageName files s =
     (if length files = 0 then Some (sint ENONE, Runtime_printHelp imageName s)
      else
        (case main_loop depth runtimeConfig files False s of
           None \<Rightarrow> None
         | Some (dirty, s') \<Rightarrow> Some (if dirty then ENOTEMPTY else sint ENONE, s')))"

section \<open>Runs and paths the properties speak of\<close>


text \<open>A path that leads to the directory at a location.\<close>

definition opens :: "node \<Rightarrow> string \<Rightarrow> string list \<Rightarrow> bool" where
  "opens root path p \<longleftrightarrow>
     path \<noteq> [] \<and>
     (case namei MAXSYMLINKS root [] (names path) of
        Inl e \<Rightarrow> False
      | Inr (f, q) \<Rightarrow> q = p \<and> (case path_lookup root p of Inr n \<Rightarrow> is_dir n | Inl e \<Rightarrow> False))"

section \<open>The walk as a function of the tree\<close>

text \<open>
  The functions of this section give the tree a call of \<open>Directory_process\<close> leaves, and
  the lines it writes, by recursion on the directory it is called for. That
  \<open>Directory_process\<close> computes them is proved below, for the paths and trees described
  here, and the properties of runs over several roots and of a second run are derived
  from them.
\<close>

text \<open>The tree in which the node a path leads to is replaced by another node.\<close>

fun replace_at :: "string list \<Rightarrow> node \<Rightarrow> node \<Rightarrow> node" where
  "replace_at [] x n = x"
| "replace_at (c # cs) x (File k) = File k"
| "replace_at (c # cs) x (Dir r w t es) =
     Dir r w t (map (\<lambda>e. (fst e, if fst e = c then replace_at cs x (snd e) else snd e)) es)"

text \<open>The error of \<open>rmdir\<close> or \<open>unlink\<close> on an entry of a directory, from the write
  permission of the directory and the entry; \<open>None\<close> when the entry is removed.\<close>

definition removal_errno :: "bool \<Rightarrow> node \<Rightarrow> int option" where
  "removal_errno w n =
     (if \<not> w then Some EACCES
      else (case n of
              File k \<Rightarrow> None
            | Dir r' w' t' es \<Rightarrow> if es \<noteq> [] then Some ENOTEMPTY else None))"

text \<open>What \<open>File_process\<close> leaves of an entry \<open>name\<close> of a directory, and the lines it
  writes, as \<open>Directory_process\<close> calls it (the \<open>DT_REG\<close> case of the switch).\<close>

definition walk_file ::
  "Configuration \<Rightarrow> string \<Rightarrow> bool \<Rightarrow> string \<Rightarrow> node \<Rightarrow> (string \<times> node) list \<times> string list" where
  "walk_file config child w name n =
     (if \<not> File_shouldClobber config name then ([(name, n)], [])
      else if simulate config then ([(name, n)], [''unlink('' @ child @ '')\<newline>''])
      else (case removal_errno w n of
              None \<Rightarrow> ([], [])
            | Some e \<Rightarrow>
                ([(name, n)],
                 [''Could not unlink '' @ child @ '': ERRNO '' @ fmt_u e @ ''\<newline>''] @
                 (if verbose config
                  then [''File_process('' @ child @ '') failed: ERRNO '' @ fmt_u e @ ''\<newline>'']
                  else []))))"

text \<open>The \<open>DT_DIR\<close> case of the switch; \<open>sub\<close> is what the recursive call leaves of the
  entry, with the lines it writes.\<close>

definition walk_dir ::
  "Configuration \<Rightarrow> string \<Rightarrow> bool \<Rightarrow> string \<Rightarrow> node \<Rightarrow> node \<times> string list
     \<Rightarrow> (string \<times> node) list \<times> string list" where
  "walk_dir config child w name n sub =
     (if preserveHidden config \<and> File_isHidden name then ([(name, n)], [])
      else if \<not> readable n then
        ([(name, n)],
         [''Could not process directory '' @ child @ '': ERRNO '' @ fmt_u EACCES @ ''\<newline>''])
      else if entries (fst sub) = [] then
        (if simulate config then
           ([(name, fst sub)], snd sub @ [''unlink('' @ child @ '')\<newline>''])
         else if w then ([], snd sub)
         else ([(name, fst sub)],
               snd sub @ [''Could not unlink directory '' @ child @ '': ERRNO '' @
                            fmt_u EACCES @ ''\<newline>'']))
      else ([(name, fst sub)],
            snd sub @ (if verbose config
                       then [''Directory '' @ child @ '' is not empty. Not unlinking.\<newline>'']
                       else [])))"

text \<open>The switch on the type \<open>readdir\<close> reports for an entry.\<close>

definition walk_entry ::
  "Configuration \<Rightarrow> string \<Rightarrow> bool \<Rightarrow> bool \<Rightarrow> string \<Rightarrow> node \<Rightarrow> node \<times> string list
     \<Rightarrow> (string \<times> node) list \<times> string list" where
  "walk_entry config child w t name n sub =
     (let dt = (if t then node_dtype n else DT_UNKNOWN)
      in if dt = DT_DIR then walk_dir config child w name n sub
         else if dt \<in> {DT_BLK, DT_CHR, DT_FIFO, DT_LNK, DT_SOCK} \<and> preserveSpecial config
           then ([(name, n)], [])
         else walk_file config child w name n)"

text \<open>What a call of \<open>Directory_process\<close> on the directory \<open>path\<close> leaves of it, and the
  lines it writes, by recursion on the tree: the entries are visited in the order of
  the stream, and each visit sees the entries the earlier visits left.\<close>

fun walk :: "Configuration \<Rightarrow> string \<Rightarrow> node \<Rightarrow> node \<times> string list" where
  "walk config path (File k) = (File k, [])"
| "walk config path (Dir r w t es) =
     (if \<not> r then (Dir r w t es, [])
      else (Dir r w t
              (concat (map (\<lambda>e. fst (walk_entry config (path @ ''/'' @ fst e) w t (fst e) (snd e)
                                       (walk config (path @ ''/'' @ fst e) (snd e)))) es)),
            concat (map (\<lambda>e. snd (walk_entry config (path @ ''/'' @ fst e) w t (fst e) (snd e)
                                       (walk config (path @ ''/'' @ fst e) (snd e)))) es)))"

declare walk.simps [simp del]

text \<open>The location a path names when it is made of the names of the directories that
  lead to its end, with \<open>"."\<close> here and there, and no \<open>".."\<close>.\<close>

definition location :: "string \<Rightarrow> string list" where
  "location path = filter (\<lambda>c. c \<noteq> ''.'') (names path)"

text \<open>The trees in which no symbolic link has a name that matches a rule.\<close>

fun links_kept :: "Configuration \<Rightarrow> node \<Rightarrow> bool" where
  "links_kept config (File k) = True"
| "links_kept config (Dir r w t es) =
     (\<forall>e \<in> set es. (link_target (snd e) \<noteq> None \<longrightarrow> \<not> File_shouldClobber config (fst e)) \<and>
        links_kept config (snd e))"

text \<open>A call of the walker on a path that names, in this way, the directory \<open>d\<close> of a
  well-formed tree, and the result \<open>walk\<close> predicts for it.\<close>

definition at_dir :: "world \<Rightarrow> string \<Rightarrow> node \<Rightarrow> bool" where
  "at_dir s path d \<longleftrightarrow>
     wf_node (fs s) \<and> path \<noteq> [] \<and> ''..'' \<notin> set (names path) \<and>
     path_lookup (fs s) (location path) = Inr d"

definition walked :: "Configuration \<Rightarrow> string \<Rightarrow> node \<Rightarrow> world \<Rightarrow> (int \<times> world) option \<Rightarrow> bool" where
  "walked config path d s res \<longleftrightarrow>
     (\<exists>r0 s1. res = Some (r0, s1) \<and> r0 = (if readable d then 0 else EACCES) \<and>
        fs s1 = replace_at (location path) (fst (walk config path d)) (fs s) \<and>
        stderr s1 = stderr s @ snd (walk config path d) \<and>
        shrinks (fs s) (fs s1))"

text \<open>Two locations neither of which is on the way to the other, and the lists of roots
  none of which lies inside another: any two of them name such locations, or the same
  location.\<close>

definition apart :: "string list \<Rightarrow> string list \<Rightarrow> bool" where
  "apart p q \<longleftrightarrow> take (length p) q \<noteq> p \<and> take (length q) p \<noteq> q"

fun roots_unnested :: "string list \<Rightarrow> bool" where
  "roots_unnested [] = True"
| "roots_unnested (root # roots) =
     ((\<forall>q \<in> set roots. location q = location root \<or> apart (location root) (location q)) \<and>
      roots_unnested roots)"

text \<open>A root argument that names a directory of the tree by the names of the directories
  that lead to it, below which no symbolic link has a name that matches a rule.\<close>

definition root_dir :: "Configuration \<Rightarrow> node \<Rightarrow> string \<Rightarrow> bool" where
  "root_dir config t root \<longleftrightarrow>
     root \<noteq> [] \<and> ''..'' \<notin> set (names root) \<and>
     (case path_lookup t (location root) of
        Inr d \<Rightarrow> is_dir d \<and> links_kept config d
      | Inl e \<Rightarrow> False)"

text \<open>What \<open>main\<close> writes for a root that is the directory \<open>d\<close>, and whether it then finds
  the root dirty.\<close>

definition node_at :: "node \<Rightarrow> string list \<Rightarrow> node" where
  "node_at t p = (case path_lookup t p of Inr n \<Rightarrow> n | Inl e \<Rightarrow> File Regular)"

definition root_out :: "Configuration \<Rightarrow> string \<Rightarrow> node \<Rightarrow> string list" where
  "root_out config root d =
     (if verbose config then [''Processing directory '' @ root @ ''\<newline>''] else []) @
     snd (walk config root d) @
     (if readable (fst (walk config root d)) then []
      else [''Directory_isEmpty('' @ root @ ''): could not open directory: ERRNO '' @
              fmt_u EACCES @ ''\<newline>''])"

definition root_dirty :: "Configuration \<Rightarrow> string \<Rightarrow> node \<Rightarrow> bool" where
  "root_dirty config root d \<longleftrightarrow>
     \<not> (readable (fst (walk config root d)) \<and> entries (fst (walk config root d)) = [])"

section \<open>Example configurations and worlds\<close>

definition policy_example :: Configuration where
  "policy_example =
     Configuration_new\<lparr>clobberExtensions := [''tmp'', ''o''], clobberNames := [''core'', ''a.out'']\<rparr>"

definition tmp_example :: Configuration where
  "tmp_example = Configuration_new\<lparr>clobberExtensions := [''tmp'']\<rparr>"

definition simulate_example :: Configuration where
  "simulate_example = Configuration_new\<lparr>simulate := True, clobberExtensions := [''tmp'']\<rparr>"

definition readonly_world :: world where
  "readonly_world =
     \<lparr>fs = Dir True True True
             [(''r'', Dir True False True [(''x.tmp'', File Regular), (''sub'', Dir True True True [])])],
      errno = 0, stderr = [], open_dirs = 0, junk = (\<lambda>n. False), failed_stats = 0\<rparr>"

definition plain_world :: world where
  "plain_world =
     \<lparr>fs = Dir True True True
             [(''r'', Dir True True True
                 [(''x.tmp'', File Regular), (''keep.txt'', File Regular),
                  (''a'', Dir True True True [(''b'', Dir True True True [(''file.tmp'', File Regular)])]),
                  (''sub'', Dir True True True [])])],
      errno = 0, stderr = [], open_dirs = 0, junk = (\<lambda>n. False), failed_stats = 0\<rparr>"

definition failing_world :: world where
  "failing_world =
     \<lparr>fs = Dir True True True
             [(''r'', Dir True False True
                 [(''x.tmp'', File Regular),
                  (''locked'', Dir False True True [(''z.tmp'', File Regular)]),
                  (''sub'', Dir True True True []),
                  (''a'', Dir True True True [(''y.tmp'', File Regular)])])],
      errno = 0, stderr = [], open_dirs = 0, junk = (\<lambda>n. False), failed_stats = 0\<rparr>"

definition cascade_world :: world where
  "cascade_world =
     \<lparr>fs = Dir True True True
             [(''root'', Dir True True True
                 [(''a'', Dir True True True [(''b'', Dir True True True [(''file.tmp'', File Regular)])])])],
      errno = 0, stderr = [], open_dirs = 0, junk = (\<lambda>n. False), failed_stats = 0\<rparr>"

definition links_world :: world where
  "links_world =
     \<lparr>fs = Dir True True True
             [(''r'', Dir True True True
                 [(''z.tmp'', File (SymLink ''sub'')),
                  (''sub'', Dir True True True [(''x.tmp'', File Regular)])])],
      errno = 0, stderr = [], open_dirs = 0, junk = (\<lambda>n. False), failed_stats = 0\<rparr>"

definition special_example :: Configuration where
  "special_example = Configuration_new\<lparr>preserveSpecial := True, clobberExtensions := [''tmp'']\<rparr>"

definition fifo_world :: world where
  "fifo_world =
     \<lparr>fs = Dir True True True [(''r'', Dir True True True [(''p.tmp'', File Fifo)])],
      errno = 0, stderr = [], open_dirs = 0, junk = (\<lambda>n. False), failed_stats = 0\<rparr>"

definition nested_world :: world where
  "nested_world =
     \<lparr>fs = Dir True True True
             [(''r'', Dir True True True [(''a.tmp'', Dir True True True [(''x.tmp'', File Regular)])])],
      errno = 0, stderr = [], open_dirs = 0, junk = (\<lambda>n. False), failed_stats = 0\<rparr>"

definition dotdot_world :: world where
  "dotdot_world =
     \<lparr>fs = Dir True True True
             [(''r'', Dir True True True [(''a'', Dir True True True []), (''x.tmp'', File Regular)])],
      errno = 0, stderr = [], open_dirs = 0, junk = (\<lambda>n. False), failed_stats = 0\<rparr>"

definition linked_root_world :: world where
  "linked_root_world =
     \<lparr>fs = Dir True True True
             [(''r'', Dir True True True
                 [(''l'', File (SymLink ''sub/a/..'')),
                  (''sub'', Dir True True True [(''a'', Dir True True True [])])])],
      errno = 0, stderr = [], open_dirs = 0, junk = (\<lambda>n. False), failed_stats = 0\<rparr>"

section \<open>Properties of the string functions\<close>

lemma strcmp_eq_0: "strcmp a b = 0 \<longleftrightarrow> a = b"
  by (induction a b rule: strcmp.induct) auto

lemma strrchr_None: "strrchr s c = None \<longleftrightarrow> c \<notin> set s"
  by (induction s) (auto split: option.splits)

lemma strrchr_append:
  "c \<notin> set e \<Longrightarrow> strrchr (x @ c # e) c = Some (c # e)"
proof (induction x)
  case Nil
  then have "strrchr e c = None" by (simp add: strrchr_None)
  then show ?case by simp
next
  case (Cons a x)
  then show ?case by simp
qed

lemma shouldClobberExtension_from_iff:
  "shouldClobberExtension_from config extension index
     \<longleftrightarrow> extension \<in> set (drop index (clobberExtensions config))"
proof (induction config extension index rule: shouldClobberExtension_from.induct)
  case (1 config extension index)
  have unf: "shouldClobberExtension_from config extension index =
     (if index < length (clobberExtensions config) then
        (if strcmp extension (clobberExtensions config ! index) = 0 then True
         else shouldClobberExtension_from config extension (index + 1))
      else False)"
    by (rule shouldClobberExtension_from.simps)
  show ?case
  proof (cases "index < length (clobberExtensions config)")
    case True
    then have d: "drop index (clobberExtensions config)
        = clobberExtensions config ! index # drop (index + 1) (clobberExtensions config)"
      by (simp add: Cons_nth_drop_Suc)
    from True d "1.IH" show ?thesis
      unfolding unf by (auto simp: strcmp_eq_0)
  next
    case False
    then show ?thesis
      unfolding unf by simp
  qed
qed

lemma shouldClobberName_from_iff:
  "shouldClobberName_from config name index \<longleftrightarrow> name \<in> set (drop index (clobberNames config))"
proof (induction config name index rule: shouldClobberName_from.induct)
  case (1 config name index)
  have unf: "shouldClobberName_from config name index =
     (if index < length (clobberNames config) then
        (if strcmp name (clobberNames config ! index) = 0 then True
         else shouldClobberName_from config name (index + 1))
      else False)"
    by (rule shouldClobberName_from.simps)
  show ?case
  proof (cases "index < length (clobberNames config)")
    case True
    then have d: "drop index (clobberNames config)
        = clobberNames config ! index # drop (index + 1) (clobberNames config)"
      by (simp add: Cons_nth_drop_Suc)
    from True d "1.IH" show ?thesis
      unfolding unf by (auto simp: strcmp_eq_0)
  next
    case False
    then show ?thesis
      unfolding unf by simp
  qed
qed

lemma Configuration_shouldClobberExtension_iff:
  "Configuration_shouldClobberExtension config extension
     \<longleftrightarrow> extension \<in> set (clobberExtensions config)"
  by (simp add: Configuration_shouldClobberExtension_def shouldClobberExtension_from_iff)

lemma Configuration_shouldClobberName_iff:
  "Configuration_shouldClobberName config name \<longleftrightarrow> name \<in> set (clobberNames config)"
  by (simp add: Configuration_shouldClobberName_def shouldClobberName_from_iff)

section \<open>Properties of the file system\<close>

lemma split_path_not_Nil [simp]: "split_path p \<noteq> []"
  by (induction p) (auto split: list.splits)

lemma split_path_append: "split_path (a @ CHR ''/'' # b) = split_path a @ split_path b"
  by (induction a) (auto split: list.splits)

lemma split_path_noslash: "CHR ''/'' \<notin> set n \<Longrightarrow> split_path n = [n]"
  by (induction n) (auto split: list.splits)

lemma names_append: "names (a @ CHR ''/'' # b) = names a @ names b"
  by (simp add: names_def split_path_append)

lemma names_valid: "valid_name n \<Longrightarrow> names n = [n]"
  by (simp add: names_def valid_name_def split_path_noslash)

lemma names_child: "valid_name n \<Longrightarrow> names (p @ CHR ''/'' # n) = names p @ [n]"
  by (simp add: names_append names_valid)

lemma trailing_slash_child: "valid_name n \<Longrightarrow> \<not> trailing_slash (p @ CHR ''/'' # n)"
  by (cases n rule: rev_cases) (auto simp: trailing_slash_def valid_name_def)

lemma parse_child: "valid_name n \<Longrightarrow> parse (p @ CHR ''/'' # n) = names p @ [n]"
  using trailing_slash_child [of n p] by (simp add: parse_def names_child)

lemma height_child: "map_of es c = Some n \<Longrightarrow> height n < height (Dir r w t es)"
proof -
  assume "map_of es c = Some n"
  then have "(c, n) \<in> set es" by (rule map_of_SomeD)
  then have "height n \<in> insert 0 ((\<lambda>e. height (snd e)) ` set es)" by force
  then have "height n \<le> Max (insert 0 ((\<lambda>e. height (snd e)) ` set es))"
    by (intro Max_ge) auto
  then show ?thesis by simp
qed

lemma height_Dir_mono:
  assumes "\<And>e. e \<in> set es \<Longrightarrow> \<exists>e' \<in> set es'. height (snd e) \<le> height (snd e')"
  shows "height (Dir r w t es) \<le> height (Dir r' w' t' es')"
proof -
  have "Max (insert 0 ((\<lambda>e. height (snd e)) ` set es))
      \<le> Max (insert 0 ((\<lambda>e. height (snd e)) ` set es'))"
  proof (rule Max.boundedI)
    fix a assume "a \<in> insert 0 ((\<lambda>e. height (snd e)) ` set es)"
    then consider "a = 0" | e where "e \<in> set es" "a = height (snd e)" by auto
    then show "a \<le> Max (insert 0 ((\<lambda>e. height (snd e)) ` set es'))"
    proof cases
      case 1
      then show ?thesis by simp
    next
      case 2
      with assms obtain e' where e': "e' \<in> set es'" "a \<le> height (snd e')" by blast
      have "height (snd e') \<le> Max (insert 0 ((\<lambda>e. height (snd e)) ` set es'))"
        using e'(1) by (intro Max_ge) auto
      with e'(2) show ?thesis by simp
    qed
  qed auto
  then show ?thesis by simp
qed

lemma hat_Nil [simp]: "hat t [] = height t"
  by (simp add: hat_def)

lemma hat_File [simp]: "hat (File k) q = 0"
  by (cases q) (simp_all add: hat_def)

lemma hat_Cons:
  "hat (Dir r w t es) (c # cs) = (case map_of es c of None \<Rightarrow> 0 | Some n \<Rightarrow> hat n cs)"
  by (simp add: hat_def split: option.splits)

lemma hat_le_height: "hat t q \<le> height t"
proof (induction t q rule: path_lookup.induct)
  case (1 n)
  then show ?case by simp
next
  case (2 k c cs)
  then show ?case by simp
next
  case (3 r w t es c cs)
  show ?case
  proof (cases "map_of es c")
    case None
    then show ?thesis by (simp add: hat_Cons)
  next
    case (Some n)
    with 3 have "hat n cs \<le> height n" by simp
    moreover have "height n < height (Dir r w t es)" using Some by (rule height_child)
    ultimately show ?thesis using Some by (simp add: hat_Cons)
  qed
qed

lemma path_lookup_append:
  "path_lookup t (p @ q) = (case path_lookup t p of Inl e \<Rightarrow> Inl e | Inr n \<Rightarrow> path_lookup n q)"
  by (induction t p rule: path_lookup.induct) (auto split: option.splits)

lemma hat_below_Dir:
  assumes "path_lookup t q = Inr (Dir r w t' es)"
  shows "hat t (q @ c # cs) < hat t q"
proof -
  have "hat t (q @ c # cs) = hat (Dir r w t' es) (c # cs)"
    using assms by (simp add: hat_def path_lookup_append)
  also have "\<dots> < height (Dir r w t' es)"
  proof (cases "map_of es c")
    case None
    then show ?thesis by (simp add: hat_Cons)
  next
    case (Some n)
    have "hat n cs \<le> height n" by (rule hat_le_height)
    moreover have "height n < height (Dir r w t' es)" using Some by (rule height_child)
    ultimately show ?thesis using Some by (simp add: hat_Cons)
  qed
  also have "\<dots> = hat t q" using assms by (simp add: hat_def)
  finally show ?thesis .
qed

lemma map_of_filter_fst:
  "map_of (filter (\<lambda>e. fst e \<noteq> c) es) d = (if d = c then None else map_of es d)"
  by (induction es) auto

lemma map_of_map_entry:
  "map_of (map (\<lambda>e. (fst e, if fst e = c then F (snd e) else snd e)) es) d
     = (if d = c then map_option F (map_of es d) else map_of es d)"
  by (induction es) auto

lemma fst_map_entry: "map fst (map (\<lambda>e. (fst e, f e)) es) = map fst es"
  by (induction es) auto

lemma hat_remove_entry: "hat (remove_entry p t) q \<le> hat t q"
proof (induction p t arbitrary: q rule: remove_entry.induct)
  case (1 n)
  then show ?case by simp
next
  case (2 c cs k)
  then show ?case by simp
next
  case (3 c r w t es)
  show ?case
  proof (cases q)
    case Nil
    have "height (Dir r w t (filter (\<lambda>e. fst e \<noteq> c) es)) \<le> height (Dir r w t es)"
      by (rule height_Dir_mono) auto
    with Nil show ?thesis by simp
  next
    case (Cons d ds)
    then show ?thesis by (simp add: hat_Cons map_of_filter_fst)
  qed
next
  case (4 c c' cs r w t es)
  let ?F = "remove_entry (c' # cs)"
  let ?es' = "map (\<lambda>e. (fst e, if fst e = c then ?F (snd e) else snd e)) es"
  have IH: "hat (?F n) ds \<le> hat n ds" if "(c, n) \<in> set es" for n ds
    using "4.IH" [of "(c, n)" ds] that by simp
  show ?case
  proof (cases q)
    case Nil
    have "height (Dir r w t ?es') \<le> height (Dir r w t es)"
    proof (rule height_Dir_mono)
      fix e assume "e \<in> set ?es'"
      then obtain e0 where e0: "e0 \<in> set es"
        "e = (fst e0, if fst e0 = c then ?F (snd e0) else snd e0)" by auto
      have "height (snd e) \<le> height (snd e0)"
      proof (cases "fst e0 = c")
        case True
        then have "(c, snd e0) \<in> set es" using e0(1) by (metis prod.collapse)
        from IH [OF this, of "[]"] True e0(2) show ?thesis by simp
      next
        case False
        with e0(2) show ?thesis by simp
      qed
      with e0(1) show "\<exists>e'\<in>set es. height (snd e) \<le> height (snd e')" by blast
    qed
    with Nil show ?thesis by simp
  next
    case (Cons d ds)
    have m: "map_of ?es' d = (if d = c then map_option ?F (map_of es d) else map_of es d)"
      by (rule map_of_map_entry)
    show ?thesis
    proof (cases "d = c")
      case False
      with m Cons show ?thesis by (simp add: hat_Cons)
    next
      case True
      show ?thesis
      proof (cases "map_of es c")
        case None
        with m True Cons show ?thesis by (simp add: hat_Cons)
      next
        case (Some n)
        then have "(c, n) \<in> set es" by (rule map_of_SomeD)
        from IH [OF this, of ds] m True Cons Some show ?thesis by (simp add: hat_Cons)
      qed
    qed
  qed
qed

lemma wf_remove_entry: "wf_node t \<Longrightarrow> wf_node (remove_entry p t)"
proof (induction p t rule: remove_entry.induct)
  case (3 c r w t es)
  then show ?case by (auto simp: distinct_map_filter)
next
  case (4 c c' cs r w t es)
  let ?es' = "map (\<lambda>e. (fst e, if fst e = c then remove_entry (c' # cs) (snd e) else snd e)) es"
  have d: "map fst ?es' = map fst es" by (rule fst_map_entry)
  have v: "valid_name (fst e) \<and> wf_node (snd e)" if "e \<in> set ?es'" for e
  proof -
    from that obtain e0 where e0: "e0 \<in> set es"
      "e = (fst e0, if fst e0 = c then remove_entry (c' # cs) (snd e0) else snd e0)" by auto
    from "4.prems" e0(1) have v: "valid_name (fst e0)" "wf_node (snd e0)" by auto
    show ?thesis
    proof (cases "fst e0 = c")
      case True
      with "4.IH" [of e0] e0(1) v(2) have "wf_node (remove_entry (c' # cs) (snd e0))" by simp
      with True e0(2) v(1) show ?thesis by simp
    next
      case False
      with e0(2) v show ?thesis by simp
    qed
  qed
  have "distinct (map fst es)" using "4.prems" by simp
  then have "distinct (map fst ?es')" by (simp only: d)
  with v have "distinct (map fst ?es') \<and> (\<forall>e \<in> set ?es'. valid_name (fst e) \<and> wf_node (snd e))"
    by blast
  then show ?case unfolding remove_entry.simps wf_node.simps .
qed simp_all

lemma path_lookup_removed:
  "p \<noteq> [] \<Longrightarrow> path_lookup t p = Inr n \<Longrightarrow> path_lookup (remove_entry p t) p = Inl ENOENT"
proof (induction p t rule: remove_entry.induct)
  case (3 c r w t es)
  then show ?case by (simp add: map_of_filter_fst)
next
  case (4 c c' cs r w t es)
  let ?F = "remove_entry (c' # cs)"
  let ?es' = "map (\<lambda>e. (fst e, if fst e = c then ?F (snd e) else snd e)) es"
  have m: "map_of ?es' c = map_option ?F (map_of es c)"
    using map_of_map_entry [of c ?F es c] by simp
  show ?case
  proof (cases "map_of es c")
    case None
    with m show ?thesis by simp
  next
    case (Some n0)
    then have "(c, n0) \<in> set es" by (rule map_of_SomeD)
    moreover from "4.prems" Some have "path_lookup n0 (c' # cs) = Inr n" by simp
    ultimately have "path_lookup (?F n0) (c' # cs) = Inl ENOENT"
      using "4.IH" [of "(c, n0)"] by simp
    with m Some show ?thesis by simp
  qed
qed auto


lemma alike_refl [simp]: "alike n n"
  by (cases n) simp_all

lemma alike_trans: "alike a b \<Longrightarrow> alike b c \<Longrightarrow> alike a c"
  by (cases a; cases b; cases c) simp_all

lemma alike_link_target: "alike n n' \<Longrightarrow> link_target n = link_target n'"
  by (cases n; cases n') simp_all

lemma alike_is_dir: "alike n n' \<Longrightarrow> is_dir n = is_dir n'"
  by (cases n; cases n') simp_all

lemma alike_remove_entry:
  "path_lookup (remove_entry p t) q = Inr n' \<Longrightarrow> \<exists>n. path_lookup t q = Inr n \<and> alike n n'"
proof (induction p t arbitrary: q n' rule: remove_entry.induct)
  case (1 n)
  then show ?case by auto
next
  case (2 c cs k)
  then show ?case by auto
next
  case (3 c r w t es)
  show ?case
  proof (cases q)
    case Nil
    with 3 show ?thesis by auto
  next
    case (Cons d ds)
    with 3 show ?thesis by (auto simp: map_of_filter_fst split: if_splits option.splits)
  qed
next
  case (4 c c' cs r w t es)
  let ?F = "remove_entry (c' # cs)"
  let ?es' = "map (\<lambda>e. (fst e, if fst e = c then ?F (snd e) else snd e)) es"
  have m: "map_of ?es' d = (if d = c then map_option ?F (map_of es d) else map_of es d)" for d
    by (rule map_of_map_entry)
  show ?case
  proof (cases q)
    case Nil
    with "4.prems" show ?thesis by auto
  next
    case (Cons d ds)
    show ?thesis
    proof (cases "d = c")
      case False
      with "4.prems" Cons m [of d] show ?thesis by (auto split: option.splits)
    next
      case True
      show ?thesis
      proof (cases "map_of es c")
        case None
        with "4.prems" Cons True m [of d] show ?thesis by simp
      next
        case (Some n0)
        then have "(c, n0) \<in> set es" by (rule map_of_SomeD)
        moreover from "4.prems" Cons True m [of d] Some
        have "path_lookup (?F n0) ds = Inr n'" by simp
        ultimately have "\<exists>n. path_lookup n0 ds = Inr n \<and> alike n n'"
          using "4.IH" [of "(c, n0)" ds n'] by simp
        with Cons True Some show ?thesis by simp
      qed
    qed
  qed
qed

section \<open>The walk along a path\<close>

lemma path_lookup_entry:
  "path_lookup root cur = Inr (Dir r w t es) \<Longrightarrow>
     path_lookup root (cur @ [c]) = (case map_of es c of None \<Rightarrow> Inl ENOENT | Some n \<Rightarrow> Inr n)"
  by (simp add: path_lookup_append split: option.splits)

lemma namei_append:
  "namei f root cur (cs @ ds) =
     (case namei f root cur cs of Inl e \<Rightarrow> Inl e | Inr (f', p) \<Rightarrow> namei f' root p ds)"
proof (induction f root cur cs rule: namei.induct)
  case (1 fuel root cur)
  show ?case by simp
next
  case (2 fuel root cur c cs)
  show ?case
  proof (cases "path_lookup root cur")
    case (Inl e)
    then show ?thesis by simp
  next
    case (Inr b)
    show ?thesis
    proof (cases b)
      case (File k)
      with Inr show ?thesis by simp
    next
      case (Dir r w t es)
      note d = Inr Dir
      show ?thesis
      proof (cases "c = ''.'' \<or> c = ''..''")
        case True
        with d 2(1,2) show ?thesis by auto
      next
        case False
        show ?thesis
        proof (cases "map_of es c")
          case None
          with d False show ?thesis by simp
        next
          case (Some n)
          show ?thesis
          proof (cases "link_target n")
            case (Some target)
            with d False \<open>map_of es c = Some n\<close> 2(4) show ?thesis by auto
          next
            case None
            show ?thesis
            proof (cases "is_dir n")
              case True
              with d False \<open>map_of es c = Some n\<close> None 2(3) show ?thesis by auto
            next
              case nd: False
              then obtain k where k: "n = File k" by (cases n) auto
              have l: "path_lookup root (cur @ [c]) = Inr (File k)"
                using d \<open>map_of es c = Some n\<close> k by (simp add: path_lookup_entry)
              show ?thesis
              proof (cases cs)
                case (Cons a as)
                with d False \<open>map_of es c = Some n\<close> None nd show ?thesis by simp
              next
                case Nil
                with d False \<open>map_of es c = Some n\<close> None nd l show ?thesis
                  by (cases ds) simp_all
              qed
            qed
          qed
        qed
      qed
    qed
  qed
qed

lemma shrinks_Dir:
  assumes "shrinks t t'" "path_lookup t' cur = Inr (Dir r' w' ty' es')"
  shows "\<exists>r w ty es. path_lookup t cur = Inr (Dir r w ty es) \<and>
     (\<forall>c n'. map_of es' c = Some n' \<longrightarrow> (\<exists>n. map_of es c = Some n \<and> alike n n'))"
proof -
  from assms obtain n where n: "path_lookup t cur = Inr n" "alike n (Dir r' w' ty' es')"
    unfolding shrinks_def by blast
  then obtain r w ty es where d: "n = Dir r w ty es" by (cases n) auto
  have "\<exists>n. map_of es c = Some n \<and> alike n n'" if "map_of es' c = Some n'" for c n'
  proof -
    from assms(2) that have "path_lookup t' (cur @ [c]) = Inr n'"
      by (simp add: path_lookup_entry)
    with assms(1) obtain m where "path_lookup t (cur @ [c]) = Inr m" "alike m n'"
      unfolding shrinks_def by blast
    with n(1) d show ?thesis by (auto simp: path_lookup_entry split: option.splits)
  qed
  with n(1) d show ?thesis by blast
qed

lemma namei_shrinks:
  "shrinks t t' \<Longrightarrow> namei f t' cur cs = Inr x \<Longrightarrow> namei f t cur cs = Inr x"
proof (induction f t' cur cs rule: namei.induct)
  case (1 fuel root cur)
  then show ?case by simp
next
  case (2 fuel root cur c cs)
  from "2.prems"(2) obtain r' w' ty' es' where
    d': "path_lookup root cur = Inr (Dir r' w' ty' es')"
    by (auto split: sum.splits node.splits)
  from shrinks_Dir [OF "2.prems"(1) d'] obtain r w ty es where
    d: "path_lookup t cur = Inr (Dir r w ty es)"
    and en: "\<And>c n'. map_of es' c = Some n' \<Longrightarrow> \<exists>n. map_of es c = Some n \<and> alike n n'"
    by blast
  show ?case
  proof (cases "c = ''.'' \<or> c = ''..''")
    case True
    with d d' "2.prems" "2.IH"(1,2) show ?thesis by auto
  next
    case False
    with "2.prems"(2) d' obtain n' where n': "map_of es' c = Some n'"
      by (auto split: option.splits)
    from en [OF n'] obtain n where n: "map_of es c = Some n" "alike n n'" by blast
    have lt: "link_target n = link_target n'" using n(2) by (rule alike_link_target)
    have isd: "is_dir n = is_dir n'" using n(2) by (rule alike_is_dir)
    show ?thesis
    proof (cases "link_target n'")
      case (Some target)
      with "2.prems" d d' False n' n(1) lt "2.IH"(4) [OF d' refl _ _ n' Some] show ?thesis
        by (auto split: if_splits)
    next
      case None
      with "2.prems" d d' False n' n(1) lt isd "2.IH"(3) [OF d' refl _ _ n' None] show ?thesis
        by (auto split: if_splits)
    qed
  qed
qed

section \<open>Paths that lead to a directory\<close>

lemma namei_dot:
  "namei f root p [''.''] =
     (case path_lookup root p of
        Inl e \<Rightarrow> Inl e
      | Inr n \<Rightarrow> if is_dir n then Inr (f, p) else Inl ENOTDIR)"
  by (simp split: sum.splits node.splits)

lemma resolve_dir_opens:
  assumes "resolve root path = Inr d" "is_dir d"
  shows "\<exists>p. opens root path p \<and> path_lookup root p = Inr d"
proof -
  from assms(1) have ne: "path \<noteq> []" by (auto simp: resolve_def split: if_splits)
  from assms(1) ne obtain f p where
    n: "namei MAXSYMLINKS root [] (parse path) = Inr (f, p)" and l: "path_lookup root p = Inr d"
    by (auto simp: resolve_def split: sum.splits)
  have "namei MAXSYMLINKS root [] (names path) = Inr (f, p)"
  proof (cases "trailing_slash path")
    case False
    with n show ?thesis by (simp add: parse_def)
  next
    case True
    with n have c: "(case namei MAXSYMLINKS root [] (names path) of
        Inl e \<Rightarrow> Inl e | Inr (f', p') \<Rightarrow> namei f' root p' [''.'']) = Inr (f, p)"
      by (simp add: parse_def namei_append)
    then obtain f' p' where n': "namei MAXSYMLINKS root [] (names path) = Inr (f', p')"
      by (cases "namei MAXSYMLINKS root [] (names path)") auto
    with c have "namei f' root p' [''.''] = Inr (f, p)" by simp
    then have "f' = f \<and> p' = p"
      unfolding namei_dot by (auto split: sum.splits if_splits)
    with n' show ?thesis by simp
  qed
  with ne l assms(2) show ?thesis by (auto simp: opens_def)
qed

lemma opens_namei:
  "opens root path p \<Longrightarrow> \<exists>f. namei MAXSYMLINKS root [] (names path) = Inr (f, p)"
  by (auto simp: opens_def split: sum.splits)

lemma opens_Dir: "opens root path p \<Longrightarrow> \<exists>r w t es. path_lookup root p = Inr (Dir r w t es)"
proof -
  assume "opens root path p"
  then obtain n where "path_lookup root p = Inr n" "is_dir n"
    by (auto simp: opens_def split: sum.splits)
  then show ?thesis by (cases n) auto
qed

lemma opens_resolve:
  assumes "opens root path p"
  shows "resolve root path = path_lookup root p"
proof -
  from assms have ne: "path \<noteq> []" by (simp add: opens_def)
  from opens_namei [OF assms] obtain f where
    n: "namei MAXSYMLINKS root [] (names path) = Inr (f, p)" by blast
  from opens_Dir [OF assms] obtain r w t es where d: "path_lookup root p = Inr (Dir r w t es)"
    by blast
  have "namei f root p [''.''] = Inr (f, p)" unfolding namei_dot using d by simp
  with n have "namei MAXSYMLINKS root [] (parse path) = Inr (f, p)"
    by (simp add: parse_def namei_append)
  with ne show ?thesis by (simp add: resolve_def)
qed

lemma namei_child:
  assumes "opens root path p" "valid_name k"
  shows "\<exists>f. namei MAXSYMLINKS root [] (names path) = Inr (f, p) \<and>
     namei MAXSYMLINKS root [] (names (path @ ''/'' @ k)) = namei f root p [k]"
proof -
  from opens_namei [OF assms(1)] obtain f where
    n: "namei MAXSYMLINKS root [] (names path) = Inr (f, p)" by blast
  have "names (path @ ''/'' @ k) = names path @ [k]" using assms(2) by (simp add: names_child)
  with n show ?thesis by (simp add: namei_append)
qed

lemma namei_entry:
  assumes "path_lookup root p = Inr (Dir r w t es)" "valid_name k"
  shows "namei f root p [k] =
     (case map_of es k of
        None \<Rightarrow> Inl ENOENT
      | Some n \<Rightarrow>
          (case link_target n of
             None \<Rightarrow> Inr (f, p @ [k])
           | Some target \<Rightarrow>
               if f = 0 then Inl ELOOP
               else if target = [] then Inl ENOENT
               else namei (f - 1) root (if hd target = CHR ''/'' then [] else p) (parse target)))"
  using assms by (auto simp: valid_name_def split: option.splits)

lemma child_not_empty: "path @ ''/'' @ k \<noteq> []"
  by simp

lemma resolve_child:
  assumes "opens root path p" "path_lookup root p = Inr (Dir r w t es)" "valid_name k"
    "map_of es k = Some n" "link_target n = None"
  shows "resolve root (path @ ''/'' @ k) = Inr n"
proof -
  from namei_child [OF assms(1,3)] obtain f where
    "namei MAXSYMLINKS root [] (names (path @ ''/'' @ k)) = namei f root p [k]" by blast
  also have "\<dots> = Inr (f, p @ [k])" unfolding namei_entry [OF assms(2,3)] using assms by simp
  finally have "namei MAXSYMLINKS root [] (parse (path @ ''/'' @ k)) = Inr (f, p @ [k])"
    using assms(3) by (simp add: parse_child names_child)
  moreover have "path_lookup root (p @ [k]) = Inr n"
    using assms(2,4) by (simp add: path_lookup_entry)
  ultimately show ?thesis unfolding resolve_def using child_not_empty [of path k] by simp
qed

lemma resolve_child_None:
  assumes "opens root path p" "path_lookup root p = Inr (Dir r w t es)" "valid_name k"
    "map_of es k = None"
  shows "resolve root (path @ ''/'' @ k) = Inl ENOENT"
proof -
  from namei_child [OF assms(1,3)] obtain f where
    "namei MAXSYMLINKS root [] (names (path @ ''/'' @ k)) = namei f root p [k]" by blast
  also have "\<dots> = Inl ENOENT" unfolding namei_entry [OF assms(2,3)] using assms by simp
  finally have "namei MAXSYMLINKS root [] (parse (path @ ''/'' @ k)) = Inl ENOENT"
    using assms(3) by (simp add: parse_child names_child)
  then show ?thesis unfolding resolve_def using child_not_empty [of path k] by simp
qed

lemma opens_child:
  assumes "opens root path p" "path_lookup root p = Inr (Dir r w t es)" "valid_name k"
    "map_of es k = Some n" "is_dir n"
  shows "opens root (path @ ''/'' @ k) (p @ [k])"
proof -
  from assms(5) have lt: "link_target n = None" by (cases n) auto
  from namei_child [OF assms(1,3)] obtain f where
    "namei MAXSYMLINKS root [] (names (path @ ''/'' @ k)) = namei f root p [k]" by blast
  also have "\<dots> = Inr (f, p @ [k])" unfolding namei_entry [OF assms(2,3)] using assms lt by simp
  finally have "namei MAXSYMLINKS root [] (names (path @ ''/'' @ k)) = Inr (f, p @ [k])" .
  moreover have "path_lookup root (p @ [k]) = Inr n"
    using assms(2,4) by (simp add: path_lookup_entry)
  ultimately show ?thesis unfolding opens_def using child_not_empty [of path k] assms(5) by simp
qed

lemma victim_child:
  assumes "opens root path p" "path_lookup root p = Inr (Dir r w t es)" "valid_name k"
  shows "victim root (path @ ''/'' @ k) = Inr (p, w, k, map_of es k)"
proof -
  from opens_namei [OF assms(1)] obtain f where
    n: "namei MAXSYMLINKS root [] (names path) = Inr (f, p)" by blast
  have "names (path @ ''/'' @ k) = names path @ [k]" using assms(3) by (simp add: names_child)
  with n assms(2) show ?thesis by (simp add: victim_def)
qed

section \<open>Every call of Directory_process returns\<close>

lemma shrinks_refl [simp]: "shrinks t t"
  by (simp add: shrinks_def)

lemma shrinks_trans:
  assumes "shrinks t t'" "shrinks t' t''"
  shows "shrinks t t''"
proof -
  have a: "wf_node t \<longrightarrow> wf_node t''" using assms by (simp add: shrinks_def)
  have b: "\<forall>q. hat t'' q \<le> hat t q" using assms unfolding shrinks_def by (meson order_trans)
  have c: "\<exists>n. path_lookup t q = Inr n \<and> alike n n''" if "path_lookup t'' q = Inr n''" for q n''
  proof -
    from assms(2) that obtain n' where n': "path_lookup t' q = Inr n'" "alike n' n''"
      unfolding shrinks_def by blast
    from assms(1) n'(1) obtain n where "path_lookup t q = Inr n" "alike n n'"
      unfolding shrinks_def by blast
    with n'(2) show ?thesis by (blast intro: alike_trans)
  qed
  from a b c show ?thesis unfolding shrinks_def by blast
qed

lemma shrinks_remove_entry: "shrinks t (remove_entry p t)"
  unfolding shrinks_def using hat_remove_entry wf_remove_entry alike_remove_entry by blast

lemma shrinks_eq: "t' = t \<Longrightarrow> shrinks t t'"
  by simp

lemma fs_sys_stat [simp]: "fs (snd (sys_stat path s)) = fs s"
  by (simp add: sys_stat_def split: sum.splits)

lemma fs_sys_opendir [simp]: "fs (snd (sys_opendir path s)) = fs s"
  by (simp add: sys_opendir_def split: sum.splits node.splits)

lemma fs_sys_closedir [simp]: "fs (sys_closedir s) = fs s"
  by (simp add: sys_closedir_def)

lemma fs_Runtime_putError [simp]: "fs (Runtime_putError line s) = fs s"
  by (simp add: Runtime_putError_def)

lemma fs_Runtime_verbose [simp]: "fs (Runtime_verbose config line s) = fs s"
  by (simp add: Runtime_verbose_def)

lemma fs_sys_rmdir:
  "\<exists>q. fs (snd (sys_rmdir path s)) =
     (if fst (sys_rmdir path s) = 0 then remove_entry q (fs s) else fs s)"
  by (auto simp: sys_rmdir_def split: sum.splits node.splits option.splits prod.splits)

lemma fs_sys_unlink:
  "\<exists>q. fs (snd (sys_unlink path s)) =
     (if fst (sys_unlink path s) = 0 then remove_entry q (fs s) else fs s)"
  by (auto simp: sys_unlink_def split: sum.splits node.splits option.splits prod.splits)

lemma shrinks_sys_rmdir: "shrinks (fs s) (fs (snd (sys_rmdir path s)))"
  using fs_sys_rmdir [of path s] by (auto simp: shrinks_remove_entry)

lemma shrinks_sys_unlink: "shrinks (fs s) (fs (snd (sys_unlink path s)))"
  using fs_sys_unlink [of path s] by (auto simp: shrinks_remove_entry)

lemma fs_Directory_isEmpty [simp]: "fs (snd (Directory_isEmpty path s)) = fs s"
proof -
  obtain d s1 where o: "sys_opendir path s = (d, s1)" by (cases "sys_opendir path s")
  then have "fs s1 = fs s" using fs_sys_opendir [of path s] by simp
  with o show ?thesis by (cases d) (simp_all add: Directory_isEmpty_def)
qed

lemma shrinks_File_unlink: "shrinks (fs s) (fs (snd (File_unlink config path s)))"
proof (cases "simulate config")
  case True
  then show ?thesis by (simp add: File_unlink_def)
next
  case False
  obtain rc isdir s1 where st: "sys_stat path s = ((rc, isdir), s1)"
    by (cases "sys_stat path s") auto
  then have s1: "fs s1 = fs s" using fs_sys_stat [of path s] by simp
  show ?thesis
  proof (cases isdir)
    case True
    obtain r s2 where rm: "sys_rmdir path s1 = (r, s2)" by (cases "sys_rmdir path s1")
    then have "shrinks (fs s) (fs s2)" using shrinks_sys_rmdir [of s1 path] s1 by simp
    with False st True rm show ?thesis by (simp add: File_unlink_def)
  next
    case f: False
    obtain r s2 where rm: "sys_unlink path s1 = (r, s2)" by (cases "sys_unlink path s1")
    then have "shrinks (fs s) (fs s2)" using shrinks_sys_unlink [of s1 path] s1 by simp
    with False st f rm show ?thesis by (simp add: File_unlink_def)
  qed
qed

lemma shrinks_File_process: "shrinks (fs s) (fs (snd (File_process config path s)))"
proof -
  obtain u s1 where u: "File_unlink config path s = (u, s1)" by (cases "File_unlink config path s")
  then have "shrinks (fs s) (fs s1)" using shrinks_File_unlink [of s config path] by simp
  with u show ?thesis by (simp add: File_process_def Let_def)
qed

lemma shrinks_Directory_case_REG: "shrinks (fs s) (fs (Directory_case_REG config path s))"
proof -
  obtain r s1 where r: "File_process config path s = (r, s1)" by (cases "File_process config path s")
  then have "shrinks (fs s) (fs s1)" using shrinks_File_process [of s config path] by simp
  with r show ?thesis by (simp add: Directory_case_REG_def Let_def)
qed

lemma shrinks_Directory_case_special: "shrinks (fs s) (fs (Directory_case_special config path s))"
  by (simp add: Directory_case_special_def shrinks_Directory_case_REG)

lemma shrinks_hat: "shrinks t t' \<Longrightarrow> hat t' q \<le> hat t q"
  by (simp add: shrinks_def)

lemma shrinks_wf: "shrinks t t' \<Longrightarrow> wf_node t \<Longrightarrow> wf_node t'"
  by (simp add: shrinks_def)

lemma shrinks_resolve:
  assumes "shrinks t t'" "resolve t' path = Inr n'"
  shows "\<exists>n. resolve t path = Inr n \<and> alike n n' \<and> height n' \<le> height n"
proof -
  from assms(2) have ne: "path \<noteq> []" by (auto simp: resolve_def split: if_splits)
  from assms(2) ne obtain f p where
    n: "namei MAXSYMLINKS t' [] (parse path) = Inr (f, p)" and l: "path_lookup t' p = Inr n'"
    by (auto simp: resolve_def split: sum.splits)
  from assms(1) n have n0: "namei MAXSYMLINKS t [] (parse path) = Inr (f, p)"
    by (rule namei_shrinks)
  from assms(1) l obtain m where m: "path_lookup t p = Inr m" "alike m n'"
    unfolding shrinks_def by blast
  have "hat t' p \<le> hat t p" using assms(1) by (rule shrinks_hat)
  with l m(1) have "height n' \<le> height m" by (simp add: hat_def)
  with ne n0 m show ?thesis by (simp add: resolve_def)
qed

lemma shrinks_hat_path: "shrinks t t' \<Longrightarrow> hat_path t' path \<le> hat_path t path"
proof (cases "resolve t' path")
  case (Inl e)
  then show ?thesis by (simp add: hat_path_def)
next
  case (Inr n')
  assume "shrinks t t'"
  from shrinks_resolve [OF this Inr] Inr show ?thesis by (auto simp: hat_path_def)
qed

lemma hat_path_le_height: "hat_path t path \<le> height t"
proof (cases "resolve t path")
  case (Inl e)
  then show ?thesis by (simp add: hat_path_def)
next
  case (Inr n)
  then obtain p where "path_lookup t p = Inr n"
    by (auto simp: resolve_def split: if_splits sum.splits)
  with hat_le_height [of t p] Inr show ?thesis by (simp add: hat_path_def hat_def)
qed

lemma Directory_case_DIR_total:
  assumes rec: "\<exists>r s1. recurse path s = Some (r, s1) \<and> shrinks (fs s) (fs s1)"
  shows "\<exists>s'. Directory_case_DIR recurse config path name s = Some s' \<and> shrinks (fs s) (fs s')"
proof (cases "preserveHidden config \<and> File_isHidden name")
  case True
  then show ?thesis by (simp add: Directory_case_DIR_def)
next
  case False
  from rec obtain r s1 where r: "recurse path s = Some (r, s1)" and sh: "shrinks (fs s) (fs s1)"
    by blast
  show ?thesis
  proof (cases "(word_of_int r :: u32) = ENONE")
    case ne: False
    with False r sh show ?thesis by (simp add: Directory_case_DIR_def)
  next
    case ok: True
    obtain e s2 where e: "Directory_isEmpty path s1 = (e, s2)" by (cases "Directory_isEmpty path s1")
    then have s2: "fs s2 = fs s1" using fs_Directory_isEmpty [of path s1] by simp
    show ?thesis
    proof (cases e)
      case ne: False
      with False r sh ok e s2 show ?thesis by (simp add: Directory_case_DIR_def)
    next
      case True
      obtain u s3 where u: "File_unlink config path s2 = (u, s3)" by (cases "File_unlink config path s2")
      then have "shrinks (fs s2) (fs s3)" using shrinks_File_unlink [of s2 config path] by simp
      with sh s2 have "shrinks (fs s) (fs s3)" by (auto intro: shrinks_trans)
      with False r ok e True u show ?thesis by (simp add: Directory_case_DIR_def)
    qed
  qed
qed

lemma Directory_entry_total:
  assumes rec: "\<not> (d_name e = ''.'' \<or> d_name e = ''..'') \<Longrightarrow> d_type e = DT_DIR \<Longrightarrow>
      \<exists>r s1. recurse (path @ ''/'' @ d_name e) s = Some (r, s1) \<and> shrinks (fs s) (fs s1)"
  shows "\<exists>s'. Directory_entry recurse config path e s = Some s' \<and> shrinks (fs s) (fs s')"
proof (cases "d_name e = ''.'' \<or> d_name e = ''..''")
  case True
  then show ?thesis by (simp add: Directory_entry_def strcmp_eq_0)
next
  case False
  show ?thesis
  proof (cases "d_type e = DT_DIR")
    case True
    have "\<exists>s'. Directory_case_DIR recurse config (path @ ''/'' @ d_name e) (d_name e) s = Some s'
        \<and> shrinks (fs s) (fs s')"
      using rec [OF False True] by (rule Directory_case_DIR_total)
    with False True show ?thesis by (simp add: Directory_entry_def strcmp_eq_0)
  next
    case nd: False
    with False show ?thesis
      by (cases "d_type e")
        (simp_all add: Directory_entry_def strcmp_eq_0 shrinks_Directory_case_REG
          shrinks_Directory_case_special)
  qed
qed

lemma Directory_loop_total:
  assumes rec: "\<And>p s. wf_node (fs s) \<Longrightarrow> hat_path (fs s) p < n \<Longrightarrow>
      \<exists>r s1. recurse p s = Some (r, s1) \<and> shrinks (fs s) (fs s1)"
  shows "wf_node (fs s) \<Longrightarrow>
    \<forall>e \<in> set dir. d_type e = DT_DIR \<longrightarrow> d_name e = ''.'' \<or> d_name e = ''..'' \<or>
       hat_path (fs s) (path @ ''/'' @ d_name e) < n \<Longrightarrow>
    \<exists>s'. Directory_loop recurse config path dir s = Some s' \<and> shrinks (fs s) (fs s')"
proof (induction dir arbitrary: s)
  case Nil
  then show ?case by simp
next
  case (Cons e dir)
  have "\<exists>s1. Directory_entry recurse config path e s = Some s1 \<and> shrinks (fs s) (fs s1)"
  proof (rule Directory_entry_total)
    assume "\<not> (d_name e = ''.'' \<or> d_name e = ''..'')" "d_type e = DT_DIR"
    with Cons.prems(2) have "hat_path (fs s) (path @ ''/'' @ d_name e) < n" by auto
    with Cons.prems(1) show "\<exists>r s1. recurse (path @ ''/'' @ d_name e) s = Some (r, s1) \<and> shrinks (fs s) (fs s1)"
      by (rule rec)
  qed
  then obtain s1 where s1: "Directory_entry recurse config path e s = Some s1"
    and sh: "shrinks (fs s) (fs s1)" by blast
  have wf1: "wf_node (fs s1)" using sh Cons.prems(1) by (rule shrinks_wf)
  have b1: "\<forall>e \<in> set dir. d_type e = DT_DIR \<longrightarrow> d_name e = ''.'' \<or> d_name e = ''..'' \<or>
       hat_path (fs s1) (path @ ''/'' @ d_name e) < n"
  proof (intro ballI impI)
    fix e' assume "e' \<in> set dir" "d_type e' = DT_DIR"
    with Cons.prems(2) have "d_name e' = ''.'' \<or> d_name e' = ''..'' \<or>
       hat_path (fs s) (path @ ''/'' @ d_name e') < n" by simp
    moreover have "hat_path (fs s1) (path @ ''/'' @ d_name e')
        \<le> hat_path (fs s) (path @ ''/'' @ d_name e')"
      using sh by (rule shrinks_hat_path)
    ultimately show "d_name e' = ''.'' \<or> d_name e' = ''..'' \<or>
       hat_path (fs s1) (path @ ''/'' @ d_name e') < n" by linarith
  qed
  from Cons.IH [OF wf1 b1] obtain s' where
    "Directory_loop recurse config path dir s1 = Some s'" "shrinks (fs s1) (fs s')" by blast
  with s1 sh show ?case by (auto intro: shrinks_trans)
qed

lemma wf_path_lookup: "wf_node t \<Longrightarrow> path_lookup t q = Inr n \<Longrightarrow> wf_node n"
proof (induction t q rule: path_lookup.induct)
  case (3 r w t es c cs)
  show ?case
  proof (cases "map_of es c")
    case None
    with 3 show ?thesis by simp
  next
    case (Some m)
    then have "(c, m) \<in> set es" by (rule map_of_SomeD)
    with "3.prems" have "wf_node m" by auto
    with 3 Some show ?thesis by simp
  qed
qed simp_all

lemma dir_stream_names:
  "e \<in> set (dir_stream t es) \<Longrightarrow> d_name e = ''.'' \<or> d_name e = ''..'' \<or> d_name e \<in> fst ` set es"
  by (force simp: dir_stream_def dirent_of_def)

lemma dir_stream_DIR:
  assumes "e \<in> set (dir_stream t es)" "d_type e = DT_DIR" "distinct (map fst es)"
  shows "d_name e = ''.'' \<or> d_name e = ''..'' \<or>
     (\<exists>n. map_of es (d_name e) = Some n \<and> is_dir n)"
proof -
  from assms(1) consider "d_name e = ''.'' \<or> d_name e = ''..''"
    | x where "x \<in> set es" "e = dirent_of t x"
    by (auto simp: dir_stream_def)
  then show ?thesis
  proof cases
    case 1
    then show ?thesis by blast
  next
    case 2
    with assms(2) have "node_dtype (snd x) = DT_DIR"
      by (auto simp: dirent_of_def split: if_splits)
    then have "is_dir (snd x)"
      by (cases "snd x") (auto elim: kind_dtype.elims)
    moreover have "map_of es (fst x) = Some (snd x)"
      using assms(3) 2(1) by (cases x) (simp add: map_of_is_SomeI)
    ultimately show ?thesis using 2(2) by (simp add: dirent_of_def)
  qed
qed

lemma Directory_process_total:
  "wf_node (fs s) \<Longrightarrow> hat_path (fs s) path < n \<Longrightarrow>
     \<exists>r s'. Directory_process n config path s = Some (r, s') \<and> shrinks (fs s) (fs s')"
proof (induction n arbitrary: path s)
  case 0
  then show ?case by simp
next
  case (Suc n)
  obtain d s1 where o: "sys_opendir path s = (d, s1)" by (cases "sys_opendir path s")
  then have fs1: "fs s1 = fs s" using fs_sys_opendir [of path s] by simp
  show ?case
  proof (cases d)
    case None
    with o fs1 show ?thesis by (simp add: Directory_body_def)
  next
    case (Some dir)
    with o obtain w t es where res: "resolve (fs s) path = Inr (Dir True w t es)"
      and dir: "dir = dir_stream t es"
      by (auto simp: sys_opendir_def split: sum.splits node.splits if_splits)
    from resolve_dir_opens [OF res] obtain p where
      op: "opens (fs s) path p" and look: "path_lookup (fs s) p = Inr (Dir True w t es)"
      by auto
    have wfd: "wf_node (Dir True w t es)" using Suc.prems(1) look by (rule wf_path_lookup)
    have bound: "\<forall>e \<in> set dir. d_type e = DT_DIR \<longrightarrow> d_name e = ''.'' \<or> d_name e = ''..'' \<or>
       hat_path (fs s1) (path @ ''/'' @ d_name e) < n"
    proof (intro ballI impI)
      fix e assume e: "e \<in> set dir" "d_type e = DT_DIR"
      from wfd have "distinct (map fst es)" by simp
      from dir_stream_DIR [OF e(1) [unfolded dir] e(2) this]
      consider "d_name e = ''.'' \<or> d_name e = ''..''"
        | m where "map_of es (d_name e) = Some m" "is_dir m" by blast
      then show "d_name e = ''.'' \<or> d_name e = ''..'' \<or>
         hat_path (fs s1) (path @ ''/'' @ d_name e) < n"
      proof cases
        case 1
        then show ?thesis by blast
      next
        case 2
        from 2(1) have "(d_name e, m) \<in> set es" by (rule map_of_SomeD)
        with wfd have v: "valid_name (d_name e)" by auto
        from 2(2) have "link_target m = None" by (cases m) auto
        with op look v 2(1) have "resolve (fs s) (path @ ''/'' @ d_name e) = Inr m"
          by (rule resolve_child)
        then have a: "hat_path (fs s1) (path @ ''/'' @ d_name e) = height m"
          unfolding hat_path_def fs1 by simp
        have b: "height m < height (Dir True w t es)" using 2(1) by (rule height_child)
        have c: "hat_path (fs s) path = height (Dir True w t es)"
          unfolding hat_path_def res by simp
        from a b c Suc.prems(2) have "hat_path (fs s1) (path @ ''/'' @ d_name e) < n"
          by linarith
        then show ?thesis by blast
      qed
    qed
    have "\<exists>s2. Directory_loop (Directory_process n config) config path dir s1 = Some s2
        \<and> shrinks (fs s1) (fs s2)"
      using Suc.IH Suc.prems(1) bound fs1 by (intro Directory_loop_total) auto
    then obtain s2 where "Directory_loop (Directory_process n config) config path dir s1 = Some s2"
      "shrinks (fs s1) (fs s2)" by blast
    with o Some fs1 show ?thesis by (simp add: Directory_body_def)
  qed
qed

section \<open>The clobber policy (claim C2)\<close>

lemma strrchr_dot_None: "CHR ''.'' \<notin> set b \<Longrightarrow> strrchr b CHR ''.'' = None"
  by (simp add: strrchr_None)

lemma strrchr_dot_ext:
  "CHR ''.'' \<notin> set ext \<Longrightarrow> strrchr (x @ ''.'' @ ext) CHR ''.'' = Some (CHR ''.'' # ext)"
  using strrchr_append [of "CHR ''.''" ext x] by simp

text \<open>
  Claim C2. A basename without a dot is clobbered exactly when it is one of the clobber
  names. A basename \<open>x.ext\<close>, where \<open>ext\<close> is what follows the last dot, is clobbered
  exactly when the whole basename is one of the clobber names or \<open>ext\<close> is one of the
  clobber extensions. Membership is equality of strings: exact and case-sensitive.
\<close>

theorem File_shouldClobber_policy:
  "(CHR ''.'' \<notin> set b \<longrightarrow>
      (File_shouldClobber config b \<longleftrightarrow> b \<in> set (clobberNames config))) \<and>
   (CHR ''.'' \<notin> set ext \<longrightarrow>
      (File_shouldClobber config (x @ ''.'' @ ext) \<longleftrightarrow>
         x @ ''.'' @ ext \<in> set (clobberNames config) \<or> ext \<in> set (clobberExtensions config)))"
proof (intro conjI impI)
  assume "CHR ''.'' \<notin> set b"
  then show "File_shouldClobber config b \<longleftrightarrow> b \<in> set (clobberNames config)"
    by (simp add: File_shouldClobber_def Configuration_shouldClobberName_iff strrchr_dot_None)
next
  assume "CHR ''.'' \<notin> set ext"
  then have "strrchr (x @ ''.'' @ ext) CHR ''.'' = Some (CHR ''.'' # ext)"
    by (rule strrchr_dot_ext)
  then show "File_shouldClobber config (x @ ''.'' @ ext) \<longleftrightarrow>
      x @ ''.'' @ ext \<in> set (clobberNames config) \<or> ext \<in> set (clobberExtensions config)"
    by (simp add: File_shouldClobber_def Configuration_shouldClobberName_iff
        Configuration_shouldClobberExtension_iff)
qed

theorem File_shouldClobber_policy_witness:
  "File_shouldClobber policy_example ''core'' \<and>
   \<not> File_shouldClobber policy_example ''Core'' \<and>
   File_shouldClobber policy_example ''lib.x.tmp'' \<and>
   File_shouldClobber policy_example ''a.out'' \<and>
   \<not> File_shouldClobber policy_example ''lib.x.TMP''"
  using File_shouldClobber_policy [of "''core''" policy_example "''tmp''" "''lib.x''"]
    File_shouldClobber_policy [of "''Core''" policy_example "''out''" "''a''"]
    File_shouldClobber_policy [of "''core''" policy_example "''TMP''" "''lib.x''"]
  by (simp add: policy_example_def Configuration_new_def)

section \<open>Hidden names (claim C5)\<close>

lemma basename_not_empty: "basename path \<noteq> []"
proof (cases "path = []")
  case True
  then show ?thesis by (simp add: basename_def)
next
  case False
  define q where "q = dropWhile (\<lambda>c. c = CHR ''/'') (rev path)"
  show ?thesis
  proof (cases "q = []")
    case True
    with False show ?thesis by (simp add: basename_def q_def)
  next
    case False
    then have "hd q \<noteq> CHR ''/''" unfolding q_def by (metis (full_types) hd_dropWhile)
    with False have "takeWhile (\<lambda>c. c \<noteq> CHR ''/'') q \<noteq> []" by (cases q) auto
    with False \<open>path \<noteq> []\<close> show ?thesis by (simp add: basename_def q_def Let_def)
  qed
qed

text \<open>
  Claim C5. \<open>File_isHidden\<close> is called on basenames: its one call is on the name of an
  entry \<open>readdir\<close> delivered, and neither such a name nor a result of \<open>basename\<close> is the
  empty string. For every such name \<open>File_isHidden\<close> holds exactly when the first
  character is a dot, whatever follows; in particular it does not hold for a name
  without a dot.
\<close>

theorem File_isHidden_first_char:
  assumes "b \<noteq> []"
  shows "(File_isHidden b \<longleftrightarrow> hd b = CHR ''.'') \<and> (CHR ''.'' \<notin> set b \<longrightarrow> \<not> File_isHidden b)"
  using assms by (cases b) (auto simp: File_isHidden_def)

theorem File_isHidden_first_char_witness:
  "File_isHidden ''.git'' \<and> \<not> File_isHidden ''src'' \<and> \<not> File_isHidden ''a.b'' \<and>
   \<not> File_isHidden ''a.'' \<and> File_isHidden ''.'' \<and> File_isHidden ''..'' \<and>
   File_isHidden ''.a.b''"
  using File_isHidden_first_char [of "''.git''"] File_isHidden_first_char [of "''src''"]
    File_isHidden_first_char [of "''a.b''"] File_isHidden_first_char [of "''a.''"]
    File_isHidden_first_char [of "''.''"] File_isHidden_first_char [of "''..''"]
    File_isHidden_first_char [of "''.a.b''"]
  by simp

section \<open>The emptiness check (claim C6)\<close>

lemma isEmpty_count_eq: "index \<le> 2 \<Longrightarrow> isEmpty_count dir index = min 3 (index + length dir)"
  by (induction dir arbitrary: index) auto

lemma sys_opendir_Some:
  "sys_opendir path s = (Some dir, s1) \<longleftrightarrow>
     (\<exists>w t es. resolve (fs s) path = Inr (Dir True w t es) \<and> dir = dir_stream t es
        \<and> s1 = s\<lparr>open_dirs := open_dirs s + 1\<rparr>)"
  by (auto simp: sys_opendir_def split: sum.splits node.splits)

lemma sys_opendir_None:
  "fst (sys_opendir path s) = None \<longleftrightarrow> (\<forall>w t es. resolve (fs s) path \<noteq> Inr (Dir True w t es))"
  by (auto simp: sys_opendir_def split: sum.splits node.splits)

lemma length_dir_stream: "length (dir_stream t es) = length es + 2"
  by (simp add: dir_stream_def)

text \<open>
  Claim C6. When the directory can be opened, \<open>Directory_isEmpty\<close> returns true exactly
  when \<open>readdir\<close> has at most two entries to deliver, which are \<open>"."\<close> and \<open>".."\<close>: when
  the directory has no entry of its own. The count stops at three, and the handle is
  closed: the world is as before the call. When the directory cannot be opened, the
  call returns false and has written its error line.
\<close>

theorem Directory_isEmpty_spec:
  "(sys_opendir path s = (Some dir, s1) \<longrightarrow>
      Directory_isEmpty path s = (length dir \<le> 2, s) \<and>
      isEmpty_count dir 0 = min 3 (length dir) \<and>
      open_dirs (snd (Directory_isEmpty path s)) = open_dirs s) \<and>
   (sys_opendir path s = (None, s2) \<longrightarrow>
      Directory_isEmpty path s =
        (False, Runtime_putError
           (''Directory_isEmpty('' @ path @ ''): could not open directory: ERRNO '' @
              fmt_u (errno s2) @ ''\<newline>'') s2)) \<and>
   (resolve (fs s) path = Inr (Dir True w t es) \<longrightarrow>
      (fst (Directory_isEmpty path s) \<longleftrightarrow> es = [])) \<and>
   (fst (sys_opendir path s) = None \<longleftrightarrow>
      (\<forall>w t es. resolve (fs s) path \<noteq> Inr (Dir True w t es)))"
proof (intro conjI impI)
  assume o: "sys_opendir path s = (Some dir, s1)"
  then have s1: "s1 = s\<lparr>open_dirs := open_dirs s + 1\<rparr>" by (auto simp: sys_opendir_Some)
  have c: "isEmpty_count dir 0 = min 3 (length dir)"
    using isEmpty_count_eq [of 0 dir] by simp
  then show "isEmpty_count dir 0 = min 3 (length dir)" .
  have "sys_closedir s1 = s" by (simp add: s1 sys_closedir_def)
  with o c show e: "Directory_isEmpty path s = (length dir \<le> 2, s)"
    by (auto simp: Directory_isEmpty_def)
  then show "open_dirs (snd (Directory_isEmpty path s)) = open_dirs s" by simp
next
  assume "sys_opendir path s = (None, s2)"
  then show "Directory_isEmpty path s =
        (False, Runtime_putError
           (''Directory_isEmpty('' @ path @ ''): could not open directory: ERRNO '' @
              fmt_u (errno s2) @ ''\<newline>'') s2)"
    by (simp add: Directory_isEmpty_def)
next
  assume "resolve (fs s) path = Inr (Dir True w t es)"
  then have o: "sys_opendir path s = (Some (dir_stream t es), s\<lparr>open_dirs := open_dirs s + 1\<rparr>)"
    by (simp add: sys_opendir_Some)
  have "isEmpty_count (dir_stream t es) 0 = min 3 (length es + 2)"
    using isEmpty_count_eq [of 0 "dir_stream t es"] by (simp add: length_dir_stream)
  with o show "fst (Directory_isEmpty path s) \<longleftrightarrow> es = []"
    by (cases es) (auto simp: Directory_isEmpty_def)
next
  show "fst (sys_opendir path s) = None \<longleftrightarrow>
      (\<forall>w t es. resolve (fs s) path \<noteq> Inr (Dir True w t es))"
    by (rule sys_opendir_None)
qed

theorem Directory_isEmpty_spec_witness:
  "fst (Directory_isEmpty ''r/sub'' plain_world) \<and>
   \<not> fst (Directory_isEmpty ''r/a'' plain_world) \<and>
   \<not> fst (Directory_isEmpty ''r/x.tmp'' plain_world) \<and>
   stderr (snd (Directory_isEmpty ''r/x.tmp'' plain_world)) =
     [''Directory_isEmpty(r/x.tmp): could not open directory: ERRNO 20\<newline>'']"
proof -
  have r1: "resolve (fs plain_world) ''r/sub'' = Inr (Dir True True True [])"
    by code_simp
  have r2: "resolve (fs plain_world) ''r/a'' =
      Inr (Dir True True True [(''b'', Dir True True True [(''file.tmp'', File Regular)])])"
    by code_simp
  have "fst (sys_opendir ''r/x.tmp'' plain_world) = None"
    by code_simp
  then have o3: "sys_opendir ''r/x.tmp'' plain_world = (None, snd (sys_opendir ''r/x.tmp'' plain_world))"
    by (metis prod.collapse)
  have e3: "stderr (Runtime_putError
           (''Directory_isEmpty('' @ ''r/x.tmp'' @ ''): could not open directory: ERRNO '' @
              fmt_u (errno (snd (sys_opendir ''r/x.tmp'' plain_world))) @ ''\<newline>'')
           (snd (sys_opendir ''r/x.tmp'' plain_world))) =
     [''Directory_isEmpty(r/x.tmp): could not open directory: ERRNO 20\<newline>'']"
    by code_simp
  from Directory_isEmpty_spec [of "''r/sub''" plain_world _ _ _ True True "[]"] r1
  have "fst (Directory_isEmpty ''r/sub'' plain_world)" by blast
  moreover
  from Directory_isEmpty_spec [of "''r/a''" plain_world _ _ _ True True
      "[(''b'', Dir True True True [(''file.tmp'', File Regular)])]"] r2
  have "\<not> fst (Directory_isEmpty ''r/a'' plain_world)" by blast
  moreover
  from Directory_isEmpty_spec [of "''r/x.tmp''" plain_world _ _
      "snd (sys_opendir ''r/x.tmp'' plain_world)"] o3
  have "Directory_isEmpty ''r/x.tmp'' plain_world =
        (False, Runtime_putError
           (''Directory_isEmpty('' @ ''r/x.tmp'' @ ''): could not open directory: ERRNO '' @
              fmt_u (errno (snd (sys_opendir ''r/x.tmp'' plain_world))) @ ''\<newline>'')
           (snd (sys_opendir ''r/x.tmp'' plain_world)))" by blast
  with e3 have "\<not> fst (Directory_isEmpty ''r/x.tmp'' plain_world) \<and>
   stderr (snd (Directory_isEmpty ''r/x.tmp'' plain_world)) =
     [''Directory_isEmpty(r/x.tmp): could not open directory: ERRNO 20\<newline>'']" by simp
  ultimately show ?thesis by blast
qed

section \<open>What \<open>File_unlink\<close> returns (claim C4)\<close>

lemma path_lookup_errno: "path_lookup t q = Inl e \<Longrightarrow> e = ENOENT \<or> e = ENOTDIR"
  by (induction t q rule: path_lookup.induct) (auto split: option.splits)

lemma namei_errno: "namei f root cur cs = Inl e \<Longrightarrow> e = ENOENT \<or> e = ENOTDIR \<or> e = ELOOP"
proof (induction f root cur cs rule: namei.induct)
  case (1 fuel root cur)
  then show ?case by simp
next
  case (2 fuel root cur c cs)
  show ?case
  proof (cases "path_lookup root cur")
    case (Inl e')
    with "2.prems" path_lookup_errno [OF Inl] show ?thesis by auto
  next
    case (Inr b)
    show ?thesis
    proof (cases b)
      case (File k)
      with Inr "2.prems" show ?thesis by simp
    next
      case (Dir r w t es)
      note d = Inr Dir
      show ?thesis
      proof (cases "c = ''.'' \<or> c = ''..''")
        case True
        with d "2.prems" "2.IH"(1,2) show ?thesis by auto
      next
        case False
        show ?thesis
        proof (cases "map_of es c")
          case None
          with d False "2.prems" show ?thesis by simp
        next
          case (Some n)
          show ?thesis
          proof (cases "link_target n")
            case (Some target)
            with d False \<open>map_of es c = Some n\<close> "2.prems" "2.IH"(4) show ?thesis
              by (auto split: if_splits)
          next
            case None
            with d False \<open>map_of es c = Some n\<close> "2.prems" "2.IH"(3) show ?thesis
              by (auto split: if_splits)
          qed
        qed
      qed
    qed
  qed
qed

lemma resolve_errno: "resolve t path = Inl e \<Longrightarrow> e = ENOENT \<or> e = ENOTDIR \<or> e = ELOOP"
  using namei_errno [of MAXSYMLINKS t "[]" "parse path" e] path_lookup_errno [of t _ e]
  by (auto simp: resolve_def split: if_splits sum.splits)

lemma victim_errno: "victim t path = Inl e \<Longrightarrow> e = ENOENT \<or> e = ENOTDIR \<or> e = ELOOP"
  using namei_errno [of MAXSYMLINKS t "[]" "butlast (names path)" e] path_lookup_errno [of t _ e]
  by (auto simp: victim_def split: sum.splits node.splits)

lemma victim_Inr:
  "victim t path = Inr (p, w, name, entry) \<Longrightarrow>
     \<exists>f r ty es. namei MAXSYMLINKS t [] (butlast (names path)) = Inr (f, p) \<and>
        path_lookup t p = Inr (Dir r w ty es) \<and> name = last (names path) \<and>
        entry = map_of es name"
  by (auto simp: victim_def split: sum.splits node.splits)

lemma sys_rmdir_cases:
  "(fst (sys_rmdir path s) = 0 \<and>
      (\<exists>p name r w t. victim (fs s) path = Inr (p, True, name, Some (Dir r w t [])) \<and>
         path \<noteq> [] \<and> names path \<noteq> [] \<and> name \<noteq> ''.'' \<and> name \<noteq> ''..'' \<and>
         snd (sys_rmdir path s) = s\<lparr>fs := remove_entry (p @ [name]) (fs s)\<rparr>)) \<or>
   (fst (sys_rmdir path s) = - 1 \<and>
      (\<exists>e \<in> {ENOENT, ENOTDIR, ELOOP, EBUSY, EINVAL, EACCES, ENOTEMPTY}.
         snd (sys_rmdir path s) = s\<lparr>errno := e\<rparr>))"
proof (cases "path = [] \<or> names path = []")
  case True
  then show ?thesis by (auto simp: sys_rmdir_def)
next
  case False
  show ?thesis
  proof (cases "victim (fs s) path")
    case (Inl e)
    with False victim_errno [OF Inl] show ?thesis by (auto simp: sys_rmdir_def)
  next
    case (Inr v)
    obtain p w name entry where v: "v = (p, w, name, entry)" by (cases v) auto
    show ?thesis
    proof (cases entry)
      case None
      with False Inr v show ?thesis by (auto simp: sys_rmdir_def)
    next
      case (Some n)
      with False Inr v show ?thesis by (cases n) (auto simp: sys_rmdir_def)
    qed
  qed
qed

lemma sys_unlink_cases:
  "(fst (sys_unlink path s) = 0 \<and>
      (\<exists>p name k. victim (fs s) path = Inr (p, True, name, Some (File k)) \<and>
         path \<noteq> [] \<and> names path \<noteq> [] \<and> name \<noteq> ''.'' \<and> name \<noteq> ''..'' \<and>
         \<not> trailing_slash path \<and>
         snd (sys_unlink path s) = s\<lparr>fs := remove_entry (p @ [name]) (fs s)\<rparr>)) \<or>
   (fst (sys_unlink path s) = - 1 \<and>
      (\<exists>e \<in> {ENOENT, ENOTDIR, ELOOP, EISDIR, EACCES}.
         snd (sys_unlink path s) = s\<lparr>errno := e\<rparr>))"
proof (cases "path = [] \<or> names path = []")
  case True
  then show ?thesis by (auto simp: sys_unlink_def)
next
  case False
  show ?thesis
  proof (cases "victim (fs s) path")
    case (Inl e)
    with False victim_errno [OF Inl] show ?thesis by (auto simp: sys_unlink_def)
  next
    case (Inr v)
    obtain p w name entry where v: "v = (p, w, name, entry)" by (cases v) auto
    show ?thesis
    proof (cases entry)
      case None
      with False Inr v show ?thesis by (auto simp: sys_unlink_def)
    next
      case (Some n)
      with False Inr v show ?thesis by (cases n) (auto simp: sys_unlink_def)
    qed
  qed
qed

lemma sys_stat_cases:
  "(\<exists>n. resolve (fs s) path = Inr n \<and> sys_stat path s = ((0, is_dir n), s)) \<or>
   (\<exists>e. resolve (fs s) path = Inl e \<and>
      sys_stat path s = ((- 1, junk s (failed_stats s)),
        s\<lparr>errno := e, failed_stats := failed_stats s + 1\<rparr>))"
  by (cases "resolve (fs s) path") (simp_all add: sys_stat_def)

text \<open>After the removal of an entry a walk ends where it ended before, or it misses the
  entry.\<close>

lemma lookup_error_remove_entry:
  "path_lookup (remove_entry p t) q = Inl e \<Longrightarrow> path_lookup t q = Inl e \<or> e = ENOENT"
proof (induction p t arbitrary: q rule: remove_entry.induct)
  case (1 n)
  then show ?case by auto
next
  case (2 c cs k)
  then show ?case by auto
next
  case (3 c r w t es)
  show ?case
  proof (cases q)
    case Nil
    with 3 show ?thesis by auto
  next
    case (Cons d ds)
    with 3 show ?thesis by (auto simp: map_of_filter_fst split: if_splits option.splits)
  qed
next
  case (4 c c' cs r w t es)
  let ?F = "remove_entry (c' # cs)"
  let ?es' = "map (\<lambda>e. (fst e, if fst e = c then ?F (snd e) else snd e)) es"
  have m: "map_of ?es' d = (if d = c then map_option ?F (map_of es d) else map_of es d)" for d
    by (rule map_of_map_entry)
  show ?case
  proof (cases q)
    case Nil
    with "4.prems" show ?thesis by auto
  next
    case (Cons d ds)
    show ?thesis
    proof (cases "d = c")
      case False
      with "4.prems" Cons m [of d] show ?thesis by (auto split: option.splits)
    next
      case True
      show ?thesis
      proof (cases "map_of es c")
        case None
        with "4.prems" Cons True m [of d] show ?thesis by simp
      next
        case (Some n0)
        then have "(c, n0) \<in> set es" by (rule map_of_SomeD)
        moreover from "4.prems" Cons True m [of d] Some
        have "path_lookup (?F n0) ds = Inl e" by simp
        ultimately have "path_lookup n0 ds = Inl e \<or> e = ENOENT"
          using "4.IH" [of "(c, n0)" ds] by simp
        with Cons True Some show ?thesis by simp
      qed
    qed
  qed
qed

lemma namei_pruned:
  "\<forall>q n'. path_lookup t' q = Inr n' \<longrightarrow> (\<exists>n. path_lookup t q = Inr n \<and> alike n n') \<Longrightarrow>
   \<forall>q e. path_lookup t' q = Inl e \<longrightarrow> path_lookup t q = Inl e \<or> e = ENOENT \<Longrightarrow>
   namei f t' cur cs = namei f t cur cs \<or> namei f t' cur cs = Inl ENOENT"
proof (induction f t cur cs rule: namei.induct)
  case (1 fuel root cur)
  show ?case by simp
next
  case (2 fuel root cur c cs)
  note A = "2.prems"(1) [rule_format] and B = "2.prems"(2) [rule_format]
  show ?case
  proof (cases "path_lookup t' cur")
    case (Inl e)
    from B [OF Inl] Inl show ?thesis by auto
  next
    case (Inr n')
    from A [OF Inr] obtain n where n: "path_lookup root cur = Inr n" "alike n n'" by blast
    show ?thesis
    proof (cases n')
      case (File k)
      with n obtain k' where "n = File k'" by (cases n) auto
      with n Inr File show ?thesis by simp
    next
      case (Dir r' w' ty' es')
      with n obtain r w ty es where d: "n = Dir r w ty es" by (cases n) auto
      note l = n(1) d and l' = Inr Dir
      show ?thesis
      proof (cases "c = ''.''")
        case True
        with l l' "2.IH"(1) [OF n(1) d True "2.prems"] show ?thesis by simp
      next
        case nd: False
        show ?thesis
        proof (cases "c = ''..''")
          case True
          with nd l l' "2.IH"(2) [OF n(1) d nd True "2.prems"] show ?thesis by simp
        next
          case False
          show ?thesis
          proof (cases "map_of es' c")
            case None
            with l' nd False show ?thesis by simp
          next
            case (Some m')
            with l' have "path_lookup t' (cur @ [c]) = Inr m'" by (simp add: path_lookup_entry)
            from A [OF this] obtain m0 where "path_lookup root (cur @ [c]) = Inr m0" "alike m0 m'"
              by blast
            with l have m0: "map_of es c = Some m0" "alike m0 m'"
              by (auto simp: path_lookup_entry split: option.splits)
            have lt: "link_target m0 = link_target m'" using m0(2) by (rule alike_link_target)
            have isd: "is_dir m0 = is_dir m'" using m0(2) by (rule alike_is_dir)
            show ?thesis
            proof (cases "link_target m'")
              case (Some target)
              show ?thesis
              proof (cases "fuel = 0 \<or> target = []")
                case True
                with l l' nd False \<open>map_of es' c = Some m'\<close> m0(1) lt Some show ?thesis by auto
              next
                case ft: False
                from "2.IH"(4) [OF n(1) d nd False m0(1) _ _ _ "2.prems", of target] lt Some ft
                have "namei (fuel - 1) t' (if hd target = CHR ''/'' then [] else cur) (parse target @ cs)
                    = namei (fuel - 1) root (if hd target = CHR ''/'' then [] else cur) (parse target @ cs) \<or>
                  namei (fuel - 1) t' (if hd target = CHR ''/'' then [] else cur) (parse target @ cs)
                    = Inl ENOENT" by simp
                with l l' nd False \<open>map_of es' c = Some m'\<close> m0(1) lt Some ft show ?thesis by auto
              qed
            next
              case None
              show ?thesis
              proof (cases "is_dir m'")
                case True
                from "2.IH"(3) [OF n(1) d nd False m0(1) _ _ "2.prems"] lt None isd True
                have "namei fuel t' (cur @ [c]) cs = namei fuel root (cur @ [c]) cs \<or>
                  namei fuel t' (cur @ [c]) cs = Inl ENOENT" by simp
                with l l' nd False \<open>map_of es' c = Some m'\<close> m0(1) lt isd None True show ?thesis
                  by auto
              next
                case nd': False
                with l l' nd False \<open>map_of es' c = Some m'\<close> m0(1) lt isd None show ?thesis
                  by auto
              qed
            qed
          qed
        qed
      qed
    qed
  qed
qed

lemma namei_remove_entry:
  "namei f (remove_entry q t) cur cs = namei f t cur cs \<or>
   namei f (remove_entry q t) cur cs = Inl ENOENT"
  by (rule namei_pruned) (auto dest: alike_remove_entry lookup_error_remove_entry)

lemma path_lookup_remove_child:
  "path_lookup t p = Inr (Dir r w ty es) \<Longrightarrow>
     path_lookup (remove_entry (p @ [c]) t) p = Inr (Dir r w ty (filter (\<lambda>e. fst e \<noteq> c) es))"
proof (induction p arbitrary: t)
  case Nil
  then show ?case by simp
next
  case (Cons a p)
  from Cons.prems obtain r0 w0 t0 es0 where t: "t = Dir r0 w0 t0 es0" by (cases t) auto
  with Cons.prems obtain n0 where n0: "map_of es0 a = Some n0"
    "path_lookup n0 p = Inr (Dir r w ty es)" by (auto split: option.splits)
  have "remove_entry ((a # p) @ [c]) t =
      Dir r0 w0 t0 (map (\<lambda>e. (fst e, if fst e = a then remove_entry (p @ [c]) (snd e) else snd e)) es0)"
    unfolding t by (cases p) simp_all
  then show ?case using n0 Cons.IH [OF n0(2)] by (simp add: map_of_map_entry)
qed

lemma resolve_removed:
  assumes v: "victim t path = Inr (p, w, name, Some n)"
    and ne: "path \<noteq> []" "names path \<noteq> []" and nm: "name \<noteq> ''.''" "name \<noteq> ''..''"
  shows "resolve (remove_entry (p @ [name]) t) path = Inl ENOENT"
proof -
  let ?t' = "remove_entry (p @ [name]) t"
  from victim_Inr [OF v] obtain f r ty es where
    w: "namei MAXSYMLINKS t [] (butlast (names path)) = Inr (f, p)"
    and d: "path_lookup t p = Inr (Dir r w ty es)" and l: "name = last (names path)" by blast
  have split: "parse path = butlast (names path) @ name # (if trailing_slash path then [''.''] else [])"
    using ne(2) l by (simp add: parse_def)
  have d': "path_lookup ?t' p = Inr (Dir r w ty (filter (\<lambda>e. fst e \<noteq> name) es))"
    using d by (rule path_lookup_remove_child)
  have last: "namei f ?t' p (name # rest) = Inl ENOENT" for rest
    using d' nm by (simp add: map_of_filter_fst)
  from namei_remove_entry [of MAXSYMLINKS "p @ [name]" t "[]" "butlast (names path)"] w
  have "namei MAXSYMLINKS ?t' [] (butlast (names path)) = Inr (f, p) \<or>
     namei MAXSYMLINKS ?t' [] (butlast (names path)) = Inl ENOENT" by simp
  then have "namei MAXSYMLINKS ?t' [] (parse path) = Inl ENOENT"
    unfolding split namei_append [of _ _ _ "butlast (names path)"] using last by auto
  with ne(1) show ?thesis by (simp add: resolve_def)
qed

text \<open>
  Claim C4 says that \<open>File_unlink\<close>, when it does not simulate, returns the error code of
  the operating system on failure. In a directory that is not writable the removal of
  a file fails with \<open>EACCES\<close>; \<open>File_unlink\<close> returns the \<open>-1\<close> of \<open>unlink\<close>, converted to
  \<open>u32\<close>, and the error code is in \<open>errno\<close>.
\<close>

theorem File_unlink_error_code_counterexample:
  "fst (File_unlink Configuration_new ''r/x.tmp'' readonly_world) = 4294967295 \<and>
   errno (snd (File_unlink Configuration_new ''r/x.tmp'' readonly_world)) = EACCES \<and>
   fst (File_unlink Configuration_new ''r/x.tmp'' readonly_world) \<noteq> word_of_int EACCES"
  by code_simp

text \<open>
  Claim C4, amended. When it does not simulate, \<open>File_unlink\<close> calls \<open>stat\<close> and then
  \<open>rmdir\<close> if the path leads to a directory, through symbolic links as \<open>stat\<close> follows
  them, and \<open>unlink\<close> if it leads to something else; when \<open>stat\<close> fails, the buffer it
  left untouched decides between the two. \<open>File_unlink\<close> returns 0 on success, and then
  the path leads to nothing any more; on failure it returns \<open>-1\<close> as a \<open>u32\<close>, which is
  \<open>4294967295\<close>, the tree is as before and the error code of the operating system is in
  \<open>errno\<close>.
\<close>

theorem File_unlink_real:
  assumes "\<not> simulate config"
  shows
   "(resolve (fs s) path = Inr n \<longrightarrow>
       File_unlink config path s =
         (if is_dir n then (word_of_int (fst (sys_rmdir path s)), snd (sys_rmdir path s))
          else (word_of_int (fst (sys_unlink path s)), snd (sys_unlink path s)))) \<and>
    (resolve (fs s) path = Inl e \<longrightarrow>
       File_unlink config path s =
         (if junk s (failed_stats s)
          then (word_of_int (fst (sys_rmdir path (snd (sys_stat path s)))),
                snd (sys_rmdir path (snd (sys_stat path s))))
          else (word_of_int (fst (sys_unlink path (snd (sys_stat path s)))),
                snd (sys_unlink path (snd (sys_stat path s)))))) \<and>
    (fst (File_unlink config path s) = 0 \<or> fst (File_unlink config path s) = 4294967295) \<and>
    (fst (File_unlink config path s) = 0 \<longrightarrow>
       resolve (fs (snd (File_unlink config path s))) path = Inl ENOENT) \<and>
    (fst (File_unlink config path s) = 4294967295 \<longrightarrow>
       fs (snd (File_unlink config path s)) = fs s \<and>
       errno (snd (File_unlink config path s))
         \<in> {ENOENT, ENOTDIR, ELOOP, EBUSY, EINVAL, EACCES, ENOTEMPTY, EISDIR})"
proof -
  obtain rc isdir s1 where st: "sys_stat path s = ((rc, isdir), s1)"
    by (cases "sys_stat path s") auto
  have fs1: "fs s1 = fs s" using fs_sys_stat [of path s] st by simp
  define res where "res = (if isdir then sys_rmdir path s1 else sys_unlink path s1)"
  have fu: "File_unlink config path s = (word_of_int (fst res), snd res)"
    using assms st by (simp add: File_unlink_def res_def split: prod.splits)
  have res_cases:
    "(fst res = 0 \<and> resolve (fs (snd res)) path = Inl ENOENT) \<or>
     (fst res = - 1 \<and> fs (snd res) = fs s \<and>
        errno (snd res) \<in> {ENOENT, ENOTDIR, ELOOP, EBUSY, EINVAL, EACCES, ENOTEMPTY, EISDIR})"
  proof (cases isdir)
    case True
    from sys_rmdir_cases [of path s1] show ?thesis
    proof
      assume "fst (sys_rmdir path s1) = 0 \<and>
        (\<exists>p name r w t. victim (fs s1) path = Inr (p, True, name, Some (Dir r w t [])) \<and>
         path \<noteq> [] \<and> names path \<noteq> [] \<and> name \<noteq> ''.'' \<and> name \<noteq> ''..'' \<and>
         snd (sys_rmdir path s1) = s1\<lparr>fs := remove_entry (p @ [name]) (fs s1)\<rparr>)"
      then obtain p name r w t where
        a: "fst (sys_rmdir path s1) = 0"
          "victim (fs s1) path = Inr (p, True, name, Some (Dir r w t []))"
          "path \<noteq> []" "names path \<noteq> []" "name \<noteq> ''.''" "name \<noteq> ''..''"
          "snd (sys_rmdir path s1) = s1\<lparr>fs := remove_entry (p @ [name]) (fs s1)\<rparr>" by blast
      from resolve_removed [OF a(2-6)] a(1,7) True show ?thesis by (simp add: res_def)
    next
      assume "fst (sys_rmdir path s1) = - 1 \<and>
        (\<exists>e \<in> {ENOENT, ENOTDIR, ELOOP, EBUSY, EINVAL, EACCES, ENOTEMPTY}.
           snd (sys_rmdir path s1) = s1\<lparr>errno := e\<rparr>)"
      with True fs1 show ?thesis by (auto simp: res_def)
    qed
  next
    case False
    from sys_unlink_cases [of path s1] show ?thesis
    proof
      assume "fst (sys_unlink path s1) = 0 \<and>
        (\<exists>p name k. victim (fs s1) path = Inr (p, True, name, Some (File k)) \<and>
         path \<noteq> [] \<and> names path \<noteq> [] \<and> name \<noteq> ''.'' \<and> name \<noteq> ''..'' \<and>
         \<not> trailing_slash path \<and>
         snd (sys_unlink path s1) = s1\<lparr>fs := remove_entry (p @ [name]) (fs s1)\<rparr>)"
      then obtain p name k where
        a: "fst (sys_unlink path s1) = 0"
          "victim (fs s1) path = Inr (p, True, name, Some (File k))"
          "path \<noteq> []" "names path \<noteq> []" "name \<noteq> ''.''" "name \<noteq> ''..''"
          "snd (sys_unlink path s1) = s1\<lparr>fs := remove_entry (p @ [name]) (fs s1)\<rparr>" by blast
      from resolve_removed [OF a(2-6)] a(1,7) False show ?thesis by (simp add: res_def)
    next
      assume "fst (sys_unlink path s1) = - 1 \<and>
        (\<exists>e \<in> {ENOENT, ENOTDIR, ELOOP, EISDIR, EACCES}.
           snd (sys_unlink path s1) = s1\<lparr>errno := e\<rparr>)"
      with False fs1 show ?thesis by (auto simp: res_def)
    qed
  qed
  have first: "resolve (fs s) path = Inr n \<longrightarrow>
       File_unlink config path s =
         (if is_dir n then (word_of_int (fst (sys_rmdir path s)), snd (sys_rmdir path s))
          else (word_of_int (fst (sys_unlink path s)), snd (sys_unlink path s)))"
  proof
    assume "resolve (fs s) path = Inr n"
    with sys_stat_cases [of s path] st have "isdir = is_dir n" "s1 = s" by auto
    with fu show "File_unlink config path s =
         (if is_dir n then (word_of_int (fst (sys_rmdir path s)), snd (sys_rmdir path s))
          else (word_of_int (fst (sys_unlink path s)), snd (sys_unlink path s)))"
      by (simp add: res_def)
  qed
  have second: "resolve (fs s) path = Inl e \<longrightarrow>
       File_unlink config path s =
         (if junk s (failed_stats s)
          then (word_of_int (fst (sys_rmdir path (snd (sys_stat path s)))),
                snd (sys_rmdir path (snd (sys_stat path s))))
          else (word_of_int (fst (sys_unlink path (snd (sys_stat path s)))),
                snd (sys_unlink path (snd (sys_stat path s)))))"
  proof
    assume "resolve (fs s) path = Inl e"
    with sys_stat_cases [of s path] st have "isdir = junk s (failed_stats s)" by auto
    with fu st show "File_unlink config path s =
         (if junk s (failed_stats s)
          then (word_of_int (fst (sys_rmdir path (snd (sys_stat path s)))),
                snd (sys_rmdir path (snd (sys_stat path s))))
          else (word_of_int (fst (sys_unlink path (snd (sys_stat path s)))),
                snd (sys_unlink path (snd (sys_stat path s)))))"
      by (simp add: res_def)
  qed
  from res_cases show ?thesis
  proof
    assume "fst res = 0 \<and> resolve (fs (snd res)) path = Inl ENOENT"
    with fu first second show ?thesis by simp
  next
    assume "fst res = - 1 \<and> fs (snd res) = fs s \<and>
        errno (snd res) \<in> {ENOENT, ENOTDIR, ELOOP, EBUSY, EINVAL, EACCES, ENOTEMPTY, EISDIR}"
    with fu first second show ?thesis by simp
  qed
qed

theorem File_unlink_real_witness:
  "fst (File_unlink Configuration_new ''r/x.tmp'' plain_world) = 0 \<and>
   resolve (fs (snd (File_unlink Configuration_new ''r/x.tmp'' plain_world))) ''r/x.tmp''
     = Inl ENOENT \<and>
   fst (File_unlink Configuration_new ''r/x.tmp'' readonly_world) = 4294967295 \<and>
   fs (snd (File_unlink Configuration_new ''r/x.tmp'' readonly_world)) = fs readonly_world \<and>
   errno (snd (File_unlink Configuration_new ''r/x.tmp'' readonly_world)) = EACCES \<and>
   resolve (fs links_world) ''r/z.tmp'' = Inr (Dir True True True [(''x.tmp'', File Regular)]) \<and>
   File_unlink Configuration_new ''r/z.tmp'' links_world =
     (4294967295, links_world\<lparr>errno := ENOTDIR\<rparr>)"
proof -
  have ns: "\<not> simulate Configuration_new" by (simp add: Configuration_new_def)
  have v0: "fst (File_unlink Configuration_new ''r/x.tmp'' plain_world) = 0"
    by code_simp
  have v1: "fst (File_unlink Configuration_new ''r/x.tmp'' readonly_world) = 4294967295"
    "errno (snd (File_unlink Configuration_new ''r/x.tmp'' readonly_world)) = EACCES"
    by code_simp+
  have v2: "resolve (fs links_world) ''r/z.tmp'' = Inr (Dir True True True [(''x.tmp'', File Regular)])"
    by code_simp
  have v3: "fst (sys_rmdir ''r/z.tmp'' links_world) = - 1"
    by code_simp
  have v4: "\<And>e. snd (sys_rmdir ''r/z.tmp'' links_world) = links_world\<lparr>errno := e\<rparr> \<Longrightarrow> e = ENOTDIR"
  proof -
    fix e assume "snd (sys_rmdir ''r/z.tmp'' links_world) = links_world\<lparr>errno := e\<rparr>"
    then have "errno (snd (sys_rmdir ''r/z.tmp'' links_world)) = e" by simp
    moreover have "errno (snd (sys_rmdir ''r/z.tmp'' links_world)) = ENOTDIR" by code_simp
    ultimately show "e = ENOTDIR" by simp
  qed
  from sys_rmdir_cases [of "''r/z.tmp''" links_world] v3 v4
  have v5: "snd (sys_rmdir ''r/z.tmp'' links_world) = links_world\<lparr>errno := ENOTDIR\<rparr>" by auto
  from File_unlink_real [OF ns, of plain_world "''r/x.tmp''"] v0
  have a: "resolve (fs (snd (File_unlink Configuration_new ''r/x.tmp'' plain_world))) ''r/x.tmp''
     = Inl ENOENT" by blast
  from File_unlink_real [OF ns, of readonly_world "''r/x.tmp''"] v1
  have b: "fs (snd (File_unlink Configuration_new ''r/x.tmp'' readonly_world)) = fs readonly_world"
    by blast
  from File_unlink_real [OF ns, of links_world "''r/z.tmp''"
      "Dir True True True [(''x.tmp'', File Regular)]"] v2
  have "File_unlink Configuration_new ''r/z.tmp'' links_world =
      (word_of_int (fst (sys_rmdir ''r/z.tmp'' links_world)), snd (sys_rmdir ''r/z.tmp'' links_world))"
    by simp
  with v3 v5 have c: "File_unlink Configuration_new ''r/z.tmp'' links_world =
     (4294967295, links_world\<lparr>errno := ENOTDIR\<rparr>)" by simp
  from v0 a v1 b v2 c show ?thesis by blast
qed

section \<open>Every run of \<open>main\<close> returns\<close>

lemma hat_less_height: "height t < n \<Longrightarrow> hat_path t path < n"
  using hat_path_le_height [of t path] by simp

lemma shrinks_height: "shrinks t t' \<Longrightarrow> height t' \<le> height t"
  using shrinks_hat [of t t' "[]"] by simp

lemma main_loop_total:
  "wf_node (fs s) \<Longrightarrow> height (fs s) < n \<Longrightarrow>
     \<exists>d s'. main_loop n config files dirty s = Some (d, s') \<and> shrinks (fs s) (fs s')"
proof (induction files arbitrary: dirty s)
  case Nil
  then show ?case by simp
next
  case (Cons fileName files)
  obtain rc isdir s1 where st: "sys_stat fileName s = ((rc, isdir), s1)"
    by (cases "sys_stat fileName s") auto
  have fs1: "fs s1 = fs s" using fs_sys_stat [of fileName s] st by simp
  show ?case
  proof (cases isdir)
    case True
    let ?s1 = "Runtime_verbose config (''Processing directory '' @ fileName @ ''\<newline>'') s1"
    have "wf_node (fs ?s1)" "hat_path (fs ?s1) fileName < n"
      using Cons.prems fs1 by (simp_all add: hat_less_height)
    then obtain r s2 where dp: "Directory_process n config fileName ?s1 = Some (r, s2)"
      and sh2: "shrinks (fs ?s1) (fs s2)"
      using Directory_process_total by blast
    obtain e s3 where ie: "Directory_isEmpty fileName s2 = (e, s3)"
      by (cases "Directory_isEmpty fileName s2")
    then have fs3: "fs s3 = fs s2" using fs_Directory_isEmpty [of fileName s2] by simp
    from sh2 fs1 fs3 have sh3: "shrinks (fs s) (fs s3)" by simp
    then have "wf_node (fs s3)" "height (fs s3) < n"
      using Cons.prems shrinks_wf shrinks_height [OF sh3] by auto
    from Cons.IH [OF this] obtain d s' where
      "main_loop n config files (if \<not> e then True else dirty) s3 = Some (d, s')"
      "shrinks (fs s3) (fs s')" by blast
    with st True dp ie sh3 show ?thesis by (auto intro: shrinks_trans)
  next
    case False
    let ?s1 = "Runtime_verbose config (''Processing node '' @ fileName @ ''\<newline>'') s1"
    obtain r s2 where fp: "File_process config fileName ?s1 = (r, s2)"
      by (cases "File_process config fileName ?s1")
    then have sh2: "shrinks (fs s) (fs s2)"
      using shrinks_File_process [of ?s1 config fileName] fs1 by simp
    then have "wf_node (fs s2)" "height (fs s2) < n"
      using Cons.prems shrinks_wf shrinks_height [OF sh2] by auto
    from Cons.IH [OF this] obtain d s' where
      "main_loop n config files dirty s2 = Some (d, s')" "shrinks (fs s2) (fs s')" by blast
    with st False fp sh2 show ?thesis by (auto intro: shrinks_trans)
  qed
qed

lemma main_total:
  assumes "wf_node (fs s)" "height (fs s) < n"
  shows "\<exists>r s'. main n config imageName files s = Some (r, s')"
proof (cases "length files = 0")
  case True
  then show ?thesis by (simp add: main_def)
next
  case False
  from main_loop_total [OF assms, of config files False] obtain d s' where
    "main_loop n config files False s = Some (d, s')" by blast
  with False show ?thesis by (simp add: main_def)
qed

section \<open>Simulated runs (claim C3)\<close>

lemma File_unlink_simulate:
  "simulate config \<Longrightarrow>
     File_unlink config path s = (0, Runtime_putError (''unlink('' @ path @ '')\<newline>'') s)"
  by (simp add: File_unlink_def)

lemma File_process_simulate:
  "simulate config \<Longrightarrow> fs (snd (File_process config path s)) = fs s"
  by (simp add: File_process_def File_unlink_simulate Let_def)

lemma Directory_case_REG_simulate:
  "simulate config \<Longrightarrow> fs (Directory_case_REG config path s) = fs s"
proof -
  assume sim: "simulate config"
  obtain r s1 where r: "File_process config path s = (r, s1)" by (cases "File_process config path s")
  then have "fs s1 = fs s" using File_process_simulate [OF sim, of path s] by simp
  with r show ?thesis by (simp add: Directory_case_REG_def Let_def)
qed

lemma Directory_case_DIR_simulate:
  assumes sim: "simulate config"
    and rec: "\<And>r s1. recurse path s = Some (r, s1) \<Longrightarrow> fs s1 = fs s"
    and res: "Directory_case_DIR recurse config path name s = Some s'"
  shows "fs s' = fs s"
proof (cases "preserveHidden config \<and> File_isHidden name")
  case True
  with res show ?thesis by (simp add: Directory_case_DIR_def)
next
  case False
  with res obtain r s1 where r: "recurse path s = Some (r, s1)"
    by (auto simp: Directory_case_DIR_def split: option.splits)
  then have fs1: "fs s1 = fs s" by (rule rec)
  obtain e s2 where e: "Directory_isEmpty path s1 = (e, s2)" by (cases "Directory_isEmpty path s1")
  then have fs2: "fs s2 = fs s1" using fs_Directory_isEmpty [of path s1] by simp
  from res False r e fs1 fs2 sim show ?thesis
    by (cases e) (auto simp: Directory_case_DIR_def Let_def File_unlink_simulate split: if_splits)
qed

lemma Directory_entry_simulate:
  assumes sim: "simulate config"
    and rec: "\<And>p r s1. recurse p s = Some (r, s1) \<Longrightarrow> fs s1 = fs s"
    and res: "Directory_entry recurse config path e s = Some s'"
  shows "fs s' = fs s"
proof (cases "d_name e = ''.'' \<or> d_name e = ''..''")
  case True
  with res show ?thesis by (simp add: Directory_entry_def strcmp_eq_0)
next
  case False
  show ?thesis
  proof (cases "d_type e = DT_DIR")
    case True
    with False res have "Directory_case_DIR recurse config (path @ ''/'' @ d_name e) (d_name e) s = Some s'"
      by (simp add: Directory_entry_def strcmp_eq_0)
    with sim rec show ?thesis by (rule Directory_case_DIR_simulate)
  next
    case nd: False
    with False res sim show ?thesis
      by (cases "d_type e")
        (auto simp: Directory_entry_def strcmp_eq_0 Directory_case_REG_simulate
          Directory_case_special_def)
  qed
qed

lemma Directory_loop_simulate:
  assumes sim: "simulate config"
    and rec: "\<And>p s r s1. recurse p s = Some (r, s1) \<Longrightarrow> fs s1 = fs s"
  shows "Directory_loop recurse config path dir s = Some s' \<Longrightarrow> fs s' = fs s"
proof (induction dir arbitrary: s)
  case Nil
  then show ?case by simp
next
  case (Cons e dir)
  then obtain s1 where s1: "Directory_entry recurse config path e s = Some s1"
    and l: "Directory_loop recurse config path dir s1 = Some s'"
    by (auto split: option.splits)
  from sim rec s1 have "fs s1 = fs s" by (rule Directory_entry_simulate)
  with Cons.IH [OF l] show ?case by simp
qed

lemma Directory_process_simulate:
  "simulate config \<Longrightarrow> Directory_process n config path s = Some (r, s') \<Longrightarrow> fs s' = fs s"
proof (induction n arbitrary: path s r s')
  case 0
  then show ?case by simp
next
  case (Suc n)
  obtain d s1 where o: "sys_opendir path s = (d, s1)" by (cases "sys_opendir path s")
  then have fs1: "fs s1 = fs s" using fs_sys_opendir [of path s] by simp
  show ?case
  proof (cases d)
    case None
    with o Suc.prems fs1 show ?thesis by (auto simp: Directory_body_def)
  next
    case (Some dir)
    with o Suc.prems obtain s2 where
      l: "Directory_loop (Directory_process n config) config path dir s1 = Some s2"
      and s': "s' = sys_closedir s2"
      by (auto simp: Directory_body_def split: option.splits)
    have "fs s2 = fs s1"
      using Suc.prems(1) Suc.IH [OF Suc.prems(1)] l by (rule Directory_loop_simulate)
    with s' fs1 show ?thesis by simp
  qed
qed

lemma main_loop_simulate:
  "simulate config \<Longrightarrow> main_loop n config files dirty s = Some (d, s') \<Longrightarrow> fs s' = fs s"
proof (induction files arbitrary: dirty s)
  case Nil
  then show ?case by simp
next
  case (Cons fileName files)
  obtain rc isdir s1 where st: "sys_stat fileName s = ((rc, isdir), s1)"
    by (cases "sys_stat fileName s") auto
  have fs1: "fs s1 = fs s" using fs_sys_stat [of fileName s] st by simp
  show ?case
  proof (cases isdir)
    case True
    let ?s1 = "Runtime_verbose config (''Processing directory '' @ fileName @ ''\<newline>'') s1"
    from Cons.prems(2) st True obtain r s2 where
      dp: "Directory_process n config fileName ?s1 = Some (r, s2)"
      by (auto split: option.splits)
    obtain e s3 where ie: "Directory_isEmpty fileName s2 = (e, s3)"
      by (cases "Directory_isEmpty fileName s2")
    then have fs3: "fs s3 = fs s2" using fs_Directory_isEmpty [of fileName s2] by simp
    from Cons.prems(2) st True dp ie have
      "main_loop n config files (if \<not> e then True else dirty) s3 = Some (d, s')" by simp
    from Cons.IH [OF Cons.prems(1) this] Directory_process_simulate [OF Cons.prems(1) dp] fs1 fs3
    show ?thesis by simp
  next
    case False
    let ?s1 = "Runtime_verbose config (''Processing node '' @ fileName @ ''\<newline>'') s1"
    obtain r s2 where fp: "File_process config fileName ?s1 = (r, s2)"
      by (cases "File_process config fileName ?s1")
    then have fs2: "fs s2 = fs s"
      using File_process_simulate [OF Cons.prems(1), of fileName ?s1] fs1 by simp
    from Cons.prems(2) st False fp have "main_loop n config files dirty s2 = Some (d, s')" by simp
    from Cons.IH [OF Cons.prems(1) this] fs2 show ?thesis by simp
  qed
qed

lemma main_simulate:
  "simulate config \<Longrightarrow> main n config imageName files s = Some (r, s') \<Longrightarrow> fs s' = fs s"
  by (auto simp: main_def Runtime_printHelp_def main_loop_simulate split: if_splits option.splits)

text \<open>
  Claim C3. With \<open>simulate\<close> set, a removal request only writes the line
  \<open>unlink(<path>)\<close> and reports success, and no operation changes the file system:
  \<open>File_unlink\<close>, \<open>File_process\<close>, \<open>Directory_process\<close> and the whole run of \<open>main\<close>
  return, and the tree after them is the tree before them.
\<close>

theorem simulate_never_mutates:
  assumes "simulate config"
  shows
   "File_unlink config path s = (0, s\<lparr>stderr := stderr s @ [''unlink('' @ path @ '')\<newline>'']\<rparr>) \<and>
    fs (snd (File_process config path s)) = fs s \<and>
    (wf_node (fs s) \<and> height (fs s) < depth \<longrightarrow>
       (\<exists>r s'. Directory_process depth config path s = Some (r, s') \<and> fs s' = fs s)) \<and>
    (wf_node (fs s) \<and> height (fs s) < depth \<longrightarrow>
       (\<exists>r s'. main depth config imageName files s = Some (r, s') \<and> fs s' = fs s))"
proof (intro conjI impI)
  show "File_unlink config path s = (0, s\<lparr>stderr := stderr s @ [''unlink('' @ path @ '')\<newline>'']\<rparr>)"
    using assms by (simp add: File_unlink_simulate Runtime_putError_def)
  show "fs (snd (File_process config path s)) = fs s"
    using assms by (rule File_process_simulate)
next
  assume a: "wf_node (fs s) \<and> height (fs s) < depth"
  then have "hat_path (fs s) path < depth" by (simp add: hat_less_height)
  with a obtain r s' where dp: "Directory_process depth config path s = Some (r, s')"
    using Directory_process_total by blast
  with assms have "fs s' = fs s" by (rule Directory_process_simulate)
  with dp show "\<exists>r s'. Directory_process depth config path s = Some (r, s') \<and> fs s' = fs s"
    by blast
next
  assume a: "wf_node (fs s) \<and> height (fs s) < depth"
  then obtain r s' where m: "main depth config imageName files s = Some (r, s')"
    using main_total by blast
  with assms have "fs s' = fs s" by (rule main_simulate)
  with m show "\<exists>r s'. main depth config imageName files s = Some (r, s') \<and> fs s' = fs s"
    by blast
qed


theorem simulate_never_mutates_witness:
  "(\<exists>r s'. main 5 simulate_example ''scrub'' [''r''] plain_world = Some (r, s') \<and>
       fs s' = fs plain_world) \<and>
   map_option (\<lambda>x. stderr (snd x)) (main 5 simulate_example ''scrub'' [''r''] plain_world) =
     Some [''unlink(r/x.tmp)\<newline>'', ''unlink(r/a/b/file.tmp)\<newline>'', ''unlink(r/sub)\<newline>'']"
proof -
  have sim: "simulate simulate_example"
    by (simp add: simulate_example_def)
  have ok: "wf_node (fs plain_world) \<and> height (fs plain_world) < 5"
    by code_simp
  have log: "map_option (\<lambda>x. stderr (snd x)) (main 5 simulate_example ''scrub'' [''r''] plain_world) =
     Some [''unlink(r/x.tmp)\<newline>'', ''unlink(r/a/b/file.tmp)\<newline>'', ''unlink(r/sub)\<newline>'']"
    by code_simp
  from simulate_never_mutates [OF sim, where s = plain_world and depth = 5
      and imageName = "''scrub''" and files = "[''r'']"] ok
  have "\<exists>r s'. main 5 simulate_example ''scrub'' [''r''] plain_world = Some (r, s') \<and>
       fs s' = fs plain_world" by blast
  with log show ?thesis by blast
qed

section \<open>What \<open>Directory_process\<close> returns (claim C7)\<close>

lemma sys_opendir_errno:
  "sys_opendir path s = (None, s1) \<Longrightarrow>
     (\<exists>e \<in> {ENOENT, ENOTDIR, ELOOP, EACCES}. s1 = s\<lparr>errno := e\<rparr>)"
  by (auto simp: sys_opendir_def dest: resolve_errno split: sum.splits node.splits if_splits)

lemma Directory_process_result:
  assumes "Directory_process depth config path s = Some (r, s')"
  shows "(case sys_opendir path s of
            (None, s1) \<Rightarrow> r = errno s1 \<and> r \<noteq> 0 \<and> s' = s1
          | (Some dir, s1) \<Rightarrow> r = 0)"
proof (cases depth)
  case 0
  with assms show ?thesis by simp
next
  case (Suc n)
  obtain d s1 where o: "sys_opendir path s = (d, s1)" by (cases "sys_opendir path s")
  show ?thesis
  proof (cases d)
    case None
    with o obtain e where e: "e \<in> {ENOENT, ENOTDIR, ELOOP, EACCES}" "s1 = s\<lparr>errno := e\<rparr>"
      using sys_opendir_errno by blast
    then have "sint (word_of_int (errno s1) :: u32) = errno s1" "errno s1 \<noteq> 0"
      by (auto simp: ENOENT_def ENOTDIR_def ELOOP_def EACCES_def)
    with assms Suc o None show ?thesis by (auto simp: Directory_body_def)
  next
    case (Some dir)
    with assms Suc o show ?thesis
      by (auto simp: Directory_body_def ENONE_def split: option.splits)
  qed
qed

lemma Directory_loop_fold:
  "Directory_loop recurse config path dir s =
     fold (\<lambda>e acc. Option.bind acc (Directory_entry recurse config path e)) dir (Some s)"
proof -
  have none: "fold (\<lambda>e acc. Option.bind acc (Directory_entry recurse config path e)) dir None = None"
    for dir by (induction dir) simp_all
  show ?thesis
  proof (induction dir arbitrary: s)
    case Nil
    show ?case by simp
  next
    case (Cons e dir)
    show ?case
    proof (cases "Directory_entry recurse config path e s")
      case None
      then show ?thesis by (simp add: none)
    next
      case (Some s1)
      with Cons show ?thesis by simp
    qed
  qed
qed


text \<open>
  Claim C7. \<open>Directory_process\<close> returns, and what it returns is 0 exactly when the
  directory could be opened; when it could not, it returns the \<open>errno\<close> of \<open>opendir\<close> and
  has done nothing else. Its loop runs through all the entries in order: a round of the
  loop never ends it. A child directory that could not be processed, an emptied child
  directory that could not be removed and a file that could not be removed each leave
  their line on \<open>stderr\<close>, and the round ends like any other.
\<close>

theorem Directory_process_only_open_fails:
  assumes "wf_node (fs s)" "height (fs s) < depth"
  shows
   "(\<exists>r s'. Directory_process depth config path s = Some (r, s') \<and>
       (r = 0 \<longleftrightarrow> fst (sys_opendir path s) \<noteq> None) \<and>
       (fst (sys_opendir path s) = None \<longrightarrow>
          r = errno (snd (sys_opendir path s)) \<and> s' = snd (sys_opendir path s))) \<and>
    Directory_loop recurse config path dir s =
       fold (\<lambda>e acc. Option.bind acc (Directory_entry recurse config path e)) dir (Some s) \<and>
    ((\<forall>p t. recurse p t \<noteq> None) \<longrightarrow> Directory_entry recurse config path e s \<noteq> None) \<and>
    (recurse child s = Some (r1, s1) \<and> (word_of_int r1 :: u32) \<noteq> ENONE \<and>
       \<not> (preserveHidden config \<and> File_isHidden name) \<longrightarrow>
       Directory_case_DIR recurse config child name s =
         Some (Runtime_putError
           (''Could not process directory '' @ child @ '': ERRNO '' @
              decimal (unat (word_of_int r1 :: u32)) @ ''\<newline>'') s1)) \<and>
    (recurse child s = Some (0, s1) \<and> \<not> (preserveHidden config \<and> File_isHidden name) \<and>
       Directory_isEmpty child s1 = (True, s2) \<and> File_unlink config child s2 = (- 1, s3) \<longrightarrow>
       Directory_case_DIR recurse config child name s =
         Some (Runtime_putError
           (''Could not unlink directory '' @ child @ '': ERRNO '' @
              fmt_u (errno s3) @ ''\<newline>'') s3)) \<and>
    (File_shouldClobber config (basename child) \<and> File_unlink config child s = (- 1, s4) \<longrightarrow>
       File_process config child s =
         (errno s4, Runtime_putError
           (''Could not unlink '' @ child @ '': ERRNO '' @ fmt_u (errno s4) @ ''\<newline>'') s4))"
proof (intro conjI impI)
  have "hat_path (fs s) path < depth" using assms(2) by (rule hat_less_height)
  with assms(1) obtain r s' where dp: "Directory_process depth config path s = Some (r, s')"
    using Directory_process_total by blast
  obtain d s1 where o: "sys_opendir path s = (d, s1)" by (cases "sys_opendir path s")
  from Directory_process_result [OF dp] o
  have st: "(r = 0 \<longleftrightarrow> fst (sys_opendir path s) \<noteq> None) \<and>
       (fst (sys_opendir path s) = None \<longrightarrow>
          r = errno (snd (sys_opendir path s)) \<and> s' = snd (sys_opendir path s))"
    by (cases d) auto
  show "\<exists>r s'. Directory_process depth config path s = Some (r, s') \<and>
       (r = 0 \<longleftrightarrow> fst (sys_opendir path s) \<noteq> None) \<and>
       (fst (sys_opendir path s) = None \<longrightarrow>
          r = errno (snd (sys_opendir path s)) \<and> s' = snd (sys_opendir path s))"
    by (rule exI [where x = r], rule exI [where x = s']) (use dp st in simp)
next
  show "Directory_loop recurse config path dir s =
       fold (\<lambda>e acc. Option.bind acc (Directory_entry recurse config path e)) dir (Some s)"
    by (rule Directory_loop_fold)
next
  assume "\<forall>p t. recurse p t \<noteq> None"
  then have "recurse (path @ ''/'' @ d_name e) s \<noteq> None" by blast
  then show "Directory_entry recurse config path e s \<noteq> None"
    by (cases "d_type e")
      (auto simp: Directory_entry_def Directory_case_DIR_def Let_def
        split: option.splits prod.splits bool.splits)
next
  assume "recurse child s = Some (r1, s1) \<and> (word_of_int r1 :: u32) \<noteq> ENONE \<and>
       \<not> (preserveHidden config \<and> File_isHidden name)"
  then show "Directory_case_DIR recurse config child name s =
         Some (Runtime_putError
           (''Could not process directory '' @ child @ '': ERRNO '' @
              decimal (unat (word_of_int r1 :: u32)) @ ''\<newline>'') s1)"
    by (auto simp: Directory_case_DIR_def Let_def)
next
  assume "recurse child s = Some (0, s1) \<and> \<not> (preserveHidden config \<and> File_isHidden name) \<and>
       Directory_isEmpty child s1 = (True, s2) \<and> File_unlink config child s2 = (- 1, s3)"
  then show "Directory_case_DIR recurse config child name s =
         Some (Runtime_putError
           (''Could not unlink directory '' @ child @ '': ERRNO '' @
              fmt_u (errno s3) @ ''\<newline>'') s3)"
    by (auto simp: Directory_case_DIR_def Let_def ENONE_def)
next
  assume "File_shouldClobber config (basename child) \<and> File_unlink config child s = (- 1, s4)"
  then show "File_process config child s =
         (errno s4, Runtime_putError
           (''Could not unlink '' @ child @ '': ERRNO '' @ fmt_u (errno s4) @ ''\<newline>'') s4)"
    by (simp add: File_process_def Let_def)
qed

theorem Directory_process_only_open_fails_witness:
  "(\<exists>s'. Directory_process 5 tmp_example ''r'' failing_world = Some (0, s')) \<and>
   map_option (\<lambda>x. (stderr (snd x), fs (snd x)))
       (Directory_process 5 tmp_example ''r'' failing_world) =
     Some ([''Could not unlink r/x.tmp: ERRNO 13\<newline>'',
            ''Could not process directory r/locked: ERRNO 13\<newline>'',
            ''Could not unlink directory r/sub: ERRNO 13\<newline>'',
            ''Could not unlink directory r/a: ERRNO 13\<newline>''],
           Dir True True True
             [(''r'', Dir True False True
                 [(''x.tmp'', File Regular),
                  (''locked'', Dir False True True [(''z.tmp'', File Regular)]),
                  (''sub'', Dir True True True []),
                  (''a'', Dir True True True [])])]) \<and>
   (\<exists>s'. Directory_process 5 tmp_example ''r/locked'' failing_world = Some (13, s'))"
proof -
  have ok: "wf_node (fs failing_world)" "height (fs failing_world) < 5"
    by code_simp+
  have o1: "fst (sys_opendir ''r'' failing_world) \<noteq> None"
    by code_simp
  have o2: "fst (sys_opendir ''r/locked'' failing_world) = None"
    "errno (snd (sys_opendir ''r/locked'' failing_world)) = 13"
    by code_simp+
  have run: "map_option (\<lambda>x. (stderr (snd x), fs (snd x)))
       (Directory_process 5 tmp_example ''r'' failing_world) =
     Some ([''Could not unlink r/x.tmp: ERRNO 13\<newline>'',
            ''Could not process directory r/locked: ERRNO 13\<newline>'',
            ''Could not unlink directory r/sub: ERRNO 13\<newline>'',
            ''Could not unlink directory r/a: ERRNO 13\<newline>''],
           Dir True True True
             [(''r'', Dir True False True
                 [(''x.tmp'', File Regular),
                  (''locked'', Dir False True True [(''z.tmp'', File Regular)]),
                  (''sub'', Dir True True True []),
                  (''a'', Dir True True True [])])])"
    by code_simp
  from Directory_process_only_open_fails [OF ok, where config = tmp_example and path = "''r''"] o1
  have "\<exists>s'. Directory_process 5 tmp_example ''r'' failing_world = Some (0, s')" by blast
  moreover
  from Directory_process_only_open_fails [OF ok, where config = tmp_example
      and path = "''r/locked''"] o2
  have "\<exists>s'. Directory_process 5 tmp_example ''r/locked'' failing_world = Some (13, s')"
    by force
  ultimately show ?thesis using run by blast
qed

section \<open>Roots that are not directories (claim C10)\<close>




section \<open>Emptied directories (claim C1)\<close>

lemma Directory_isEmpty_True:
  assumes "fst (Directory_isEmpty path s)"
  shows "(\<exists>w t. resolve (fs s) path = Inr (Dir True w t [])) \<and> Directory_isEmpty path s = (True, s)"
proof -
  obtain d s1 where o: "sys_opendir path s = (d, s1)" by (cases "sys_opendir path s")
  with assms obtain dir where d: "d = Some dir"
    by (cases d) (auto simp: Directory_isEmpty_def)
  with o obtain w t es where res: "resolve (fs s) path = Inr (Dir True w t es)"
    and dir: "dir = dir_stream t es" and s1: "s1 = s\<lparr>open_dirs := open_dirs s + 1\<rparr>"
    by (auto simp: sys_opendir_Some)
  have c: "isEmpty_count dir 0 = min 3 (length es + 2)"
    using isEmpty_count_eq [of 0 dir] by (simp add: dir length_dir_stream)
  with assms o d have "es = []" by (cases es) (auto simp: Directory_isEmpty_def)
  moreover have "sys_closedir s1 = s" by (simp add: s1 sys_closedir_def)
  ultimately show ?thesis using res o d assms by (auto simp: Directory_isEmpty_def)
qed

lemma Directory_isEmpty_fs: "Directory_isEmpty path s = (e, s2) \<Longrightarrow> fs s2 = fs s"
  using fs_Directory_isEmpty [of path s] by simp




section \<open>Replacing a subtree\<close>

lemma path_lookup_replace_at:
  "path_lookup t cs = Inr y \<Longrightarrow> path_lookup (replace_at cs x t) cs = Inr x"
proof (induction cs x t rule: replace_at.induct)
  case (3 c cs x r w t es)
  then show ?case
    by (cases "map_of es c") (auto simp: map_of_map_entry dest: map_of_SomeD)
qed simp_all

lemma replace_at_twice: "replace_at cs x (replace_at cs y t) = replace_at cs x t"
proof (induction cs y t rule: replace_at.induct)
  case (3 c cs y r w t es)
  then show ?case by (auto simp: comp_def)
qed simp_all

lemma map_of_distinct_fst:
  "distinct (map fst es) \<Longrightarrow> e \<in> set es \<Longrightarrow> map_of es (fst e) = Some (snd e)"
  by (cases e) (simp add: map_of_is_SomeI)

lemma replace_at_child:
  "wf_node t \<Longrightarrow> path_lookup t cs = Inr (Dir r w ty es) \<Longrightarrow>
     replace_at (cs @ [k]) x t =
       replace_at cs (Dir r w ty (map (\<lambda>e. (fst e, if fst e = k then x else snd e)) es)) t"
proof (induction cs arbitrary: t)
  case Nil
  then show ?case by simp
next
  case (Cons c cs)
  from Cons.prems(2) obtain r0 w0 t0 es0 where t: "t = Dir r0 w0 t0 es0"
    by (cases t) auto
  with Cons.prems(2) obtain n0 where n0: "map_of es0 c = Some n0"
    "path_lookup n0 cs = Inr (Dir r w ty es)" by (auto split: option.splits)
  have d: "distinct (map fst es0)" using Cons.prems(1) t by simp
  have eq: "replace_at (cs @ [k]) x (snd e) =
      replace_at cs (Dir r w ty (map (\<lambda>e. (fst e, if fst e = k then x else snd e)) es)) (snd e)"
    if "e \<in> set es0" "fst e = c" for e
  proof -
    from map_of_distinct_fst [OF d that(1)] that(2) n0 have "snd e = n0" by simp
    moreover have "wf_node n0" using Cons.prems(1) t n0(1) by (auto dest: map_of_SomeD)
    ultimately show ?thesis using Cons.IH [of n0] n0(2) by simp
  qed
  show ?case unfolding t by (auto simp: eq)
qed

lemma remove_entry_child:
  "wf_node t \<Longrightarrow> path_lookup t cs = Inr (Dir r w ty es) \<Longrightarrow>
     remove_entry (cs @ [k]) t = replace_at cs (Dir r w ty (filter (\<lambda>e. fst e \<noteq> k) es)) t"
proof (induction cs arbitrary: t)
  case Nil
  then show ?case by simp
next
  case (Cons c cs)
  from Cons.prems(2) obtain r0 w0 t0 es0 where t: "t = Dir r0 w0 t0 es0"
    by (cases t) auto
  with Cons.prems(2) obtain n0 where n0: "map_of es0 c = Some n0"
    "path_lookup n0 cs = Inr (Dir r w ty es)" by (auto split: option.splits)
  have d: "distinct (map fst es0)" using Cons.prems(1) t by simp
  have eq: "remove_entry (cs @ [k]) (snd e) =
      replace_at cs (Dir r w ty (filter (\<lambda>e. fst e \<noteq> k) es)) (snd e)"
    if "e \<in> set es0" "fst e = c" for e
  proof -
    from map_of_distinct_fst [OF d that(1)] that(2) n0 have "snd e = n0" by simp
    moreover have "wf_node n0" using Cons.prems(1) t n0(1) by (auto dest: map_of_SomeD)
    ultimately show ?thesis using Cons.IH [of n0] n0(2) by simp
  qed
  obtain c' cs' where cs': "cs @ [k] = c' # cs'" by (cases "cs @ [k]") auto
  have "remove_entry (c # cs @ [k]) (Dir r0 w0 t0 es0) =
      Dir r0 w0 t0 (map (\<lambda>e. (fst e, if fst e = c then remove_entry (cs @ [k]) (snd e) else snd e)) es0)"
    by (simp add: cs')
  then show ?case unfolding t by (auto simp: eq)
qed

lemma path_lookup_child:
  "path_lookup t cs = Inr (Dir r w ty es) \<Longrightarrow>
     path_lookup t (cs @ [k]) = (case map_of es k of None \<Rightarrow> Inl ENOENT | Some n \<Rightarrow> Inr n)"
  by (simp add: path_lookup_append split: option.splits)

lemma replace_at_same:
  "wf_node t \<Longrightarrow> path_lookup t cs = Inr x \<Longrightarrow> replace_at cs x t = t"
proof (induction cs arbitrary: t)
  case Nil
  then show ?case by simp
next
  case (Cons c cs)
  from Cons.prems(2) obtain r0 w0 t0 es0 where t: "t = Dir r0 w0 t0 es0"
    by (cases t) auto
  with Cons.prems(2) obtain n0 where n0: "map_of es0 c = Some n0" "path_lookup n0 cs = Inr x"
    by (auto split: option.splits)
  have d: "distinct (map fst es0)" using Cons.prems(1) t by simp
  have eq: "replace_at cs x (snd e) = snd e" if "e \<in> set es0" "fst e = c" for e
  proof -
    from map_of_distinct_fst [OF d that(1)] that(2) n0 have "snd e = n0" by simp
    moreover have "wf_node n0" using Cons.prems(1) t n0(1) by (auto dest: map_of_SomeD)
    ultimately show ?thesis using Cons.IH [of n0] n0(2) by simp
  qed
  have "map (\<lambda>e. (fst e, if fst e = c then replace_at cs x (snd e) else snd e)) es0 = es0"
    by (rule map_idI) (auto simp: eq)
  then show ?case unfolding t by simp
qed

lemma filter_fst_notin: "k \<notin> fst ` set xs \<Longrightarrow> filter (\<lambda>e. fst e \<noteq> k) xs = xs"
  by (induction xs) auto

lemma map_fst_notin:
  "k \<notin> fst ` set xs \<Longrightarrow> map (\<lambda>e. (fst e, if fst e = k then x else snd e)) xs = xs"
  by (induction xs) auto

lemma filter_distinct_mid:
  "distinct (map fst (pre @ (k, n) # post)) \<Longrightarrow>
     filter (\<lambda>e. fst e \<noteq> k) (pre @ (k, n) # post) = pre @ post"
  by (simp add: filter_fst_notin)

lemma map_distinct_mid:
  "distinct (map fst (pre @ (k, n) # post)) \<Longrightarrow>
     map (\<lambda>e. (fst e, if fst e = k then x else snd e)) (pre @ (k, n) # post) = pre @ (k, x) # post"
  by (simp add: map_fst_notin)

lemma takeWhile_upto: "c \<notin> set xs \<Longrightarrow> takeWhile (\<lambda>x. x \<noteq> c) (xs @ c # ys) = xs"
  by (induction xs) auto

lemma dropWhile_none: "xs \<noteq> [] \<Longrightarrow> hd xs \<noteq> c \<Longrightarrow> dropWhile (\<lambda>x. x = c) xs = xs"
  by (cases xs) auto

lemma map_of_distinct_mid:
  "distinct (map fst (pre @ (k, n) # post)) \<Longrightarrow> map_of (pre @ (k, n) # post) k = Some n"
  by (rule map_of_is_SomeI) auto

section \<open>The calls of the walker on an entry of a directory\<close>

lemma basename_child: "valid_name k \<Longrightarrow> basename (path @ ''/'' @ k) = k"
proof -
  assume v: "valid_name k"
  then have k: "k \<noteq> []" "CHR ''/'' \<notin> set k" by (auto simp: valid_name_def)
  then have l: "last k \<noteq> CHR ''/''" by (metis last_in_set)
  have r: "rev (path @ ''/'' @ k) = rev k @ CHR ''/'' # rev path" by simp
  have "hd (rev k @ CHR ''/'' # rev path) = last k" using k by (simp add: hd_rev)
  with l have d: "dropWhile (\<lambda>c. c = CHR ''/'') (rev k @ CHR ''/'' # rev path) = rev k @ CHR ''/'' # rev path"
    by (intro dropWhile_none) simp_all
  have t: "takeWhile (\<lambda>c. c \<noteq> CHR ''/'') (rev k @ CHR ''/'' # rev path) = rev k"
    using k by (intro takeWhile_upto) simp
  have "basename (path @ ''/'' @ k) =
      rev (takeWhile (\<lambda>c. c \<noteq> CHR ''/'') (rev k @ CHR ''/'' # rev path))"
    unfolding basename_def Let_def r d by simp
  then show ?thesis by (simp only: t rev_rev_ident)
qed

lemma location_child: "valid_name n \<Longrightarrow> location (p @ CHR ''/'' # n) = location p @ [n]"
  by (simp add: location_def names_child valid_name_def)

lemma lookup_prefix_Dir:
  assumes "path_lookup root (cur @ q) = Inr d" "is_dir d"
  shows "\<exists>r w t es. path_lookup root cur = Inr (Dir r w t es)"
proof (cases "path_lookup root cur")
  case (Inl e)
  with assms(1) show ?thesis by (simp add: path_lookup_append)
next
  case (Inr n)
  show ?thesis
  proof (cases n)
    case (File k)
    with Inr assms show ?thesis by (cases q) (auto simp: path_lookup_append)
  next
    case (Dir r w t es)
    with Inr show ?thesis by simp
  qed
qed

lemma namei_plain:
  "''..'' \<notin> set cs \<Longrightarrow> path_lookup root (cur @ filter (\<lambda>c. c \<noteq> ''.'') cs) = Inr d \<Longrightarrow> is_dir d \<Longrightarrow>
     namei f root cur cs = Inr (f, cur @ filter (\<lambda>c. c \<noteq> ''.'') cs)"
proof (induction cs arbitrary: cur)
  case Nil
  then show ?case by simp
next
  case (Cons c cs)
  from lookup_prefix_Dir [OF Cons.prems(2,3)] obtain r w t es where
    l: "path_lookup root cur = Inr (Dir r w t es)" by blast
  show ?case
  proof (cases "c = ''.''")
    case True
    with Cons l show ?thesis by simp
  next
    case False
    from Cons.prems(1) have nd: "c \<noteq> ''..''" "''..'' \<notin> set cs" by auto
    from Cons.prems(2) False
    have l2: "path_lookup root ((cur @ [c]) @ filter (\<lambda>c. c \<noteq> ''.'') cs) = Inr d" by simp
    from lookup_prefix_Dir [OF l2 Cons.prems(3)] obtain r' w' t' es' where
      "path_lookup root (cur @ [c]) = Inr (Dir r' w' t' es')" by blast
    with l have m: "map_of es c = Some (Dir r' w' t' es')"
      by (auto simp: path_lookup_entry split: option.splits)
    from Cons.IH [OF nd(2) l2 Cons.prems(3)]
    have "namei f root (cur @ [c]) cs = Inr (f, (cur @ [c]) @ filter (\<lambda>c. c \<noteq> ''.'') cs)" .
    with l m False nd(1) show ?thesis by simp
  qed
qed

lemma at_dir_opens:
  assumes "at_dir s path d" "is_dir d"
  shows "opens (fs s) path (location path)"
proof -
  from assms(1) have ne: "path \<noteq> []" and nd: "''..'' \<notin> set (names path)"
    and l: "path_lookup (fs s) (location path) = Inr d" by (simp_all add: at_dir_def)
  from l have "path_lookup (fs s) ([] @ filter (\<lambda>c. c \<noteq> ''.'') (names path)) = Inr d"
    by (simp add: location_def)
  from namei_plain [OF nd this assms(2)]
  have "namei MAXSYMLINKS (fs s) [] (names path) = Inr (MAXSYMLINKS, location path)"
    by (simp add: location_def)
  with ne l assms(2) show ?thesis by (simp add: opens_def)
qed

lemma at_dir_resolve: "at_dir s path d \<Longrightarrow> is_dir d \<Longrightarrow> resolve (fs s) path = Inr d"
  using opens_resolve [OF at_dir_opens] by (simp add: at_dir_def)

lemma at_dir_child:
  assumes "at_dir s path (Dir r w ty es)" "valid_name k"
  shows "location (path @ ''/'' @ k) = location path @ [k]"
    and "map_of es k = Some n \<Longrightarrow> link_target n = None \<Longrightarrow>
       resolve (fs s) (path @ ''/'' @ k) = Inr n"
    and "victim (fs s) (path @ ''/'' @ k) = Inr (location path, w, k, map_of es k)"
    and "map_of es k = Some n \<Longrightarrow> is_dir n \<Longrightarrow> at_dir s (path @ ''/'' @ k) n"
proof -
  show c: "location (path @ ''/'' @ k) = location path @ [k]"
    using assms(2) by (simp add: location_child)
  from assms(1) have l: "path_lookup (fs s) (location path) = Inr (Dir r w ty es)"
    and wf: "wf_node (fs s)" and nd: "''..'' \<notin> set (names path)"
    by (simp_all add: at_dir_def)
  have op: "opens (fs s) path (location path)" using assms(1) by (rule at_dir_opens) simp
  show "resolve (fs s) (path @ ''/'' @ k) = Inr n"
    if "map_of es k = Some n" "link_target n = None"
    using op l assms(2) that by (rule resolve_child)
  show "victim (fs s) (path @ ''/'' @ k) = Inr (location path, w, k, map_of es k)"
    using op l assms(2) by (rule victim_child)
  show "at_dir s (path @ ''/'' @ k) n" if "map_of es k = Some n" "is_dir n"
  proof -
    have "path_lookup (fs s) (location path @ [k]) = Inr n"
      using l that(1) by (simp add: path_lookup_entry)
    moreover have "''..'' \<notin> set (names (path @ ''/'' @ k))"
      using nd assms(2) by (auto simp: names_child valid_name_def)
    ultimately show ?thesis using wf c by (simp add: at_dir_def)
  qed
qed

lemma File_unlink_child:
  assumes a: "at_dir s path (Dir r w ty es)" and v: "valid_name k"
    and m: "map_of es k = Some n" and ns: "\<not> simulate config"
    and lt: "link_target n = None"
  shows "File_unlink config (path @ ''/'' @ k) s =
     (case removal_errno w n of
        None \<Rightarrow> (0, s\<lparr>fs := replace_at (location path)
                             (Dir r w ty (filter (\<lambda>e. fst e \<noteq> k) es)) (fs s)\<rparr>)
      | Some e \<Rightarrow> (- 1, s\<lparr>errno := e\<rparr>))"
proof -
  let ?child = "path @ ''/'' @ k"
  note c = at_dir_child [OF a v]
  from c(2) [OF m lt] have res: "resolve (fs s) ?child = Inr n" .
  then have st: "sys_stat ?child s = ((0, is_dir n), s)" by (simp add: sys_stat_def)
  from a have wf: "wf_node (fs s)" and l: "path_lookup (fs s) (location path) = Inr (Dir r w ty es)"
    by (simp_all add: at_dir_def)
  have rm: "remove_entry (location path @ [k]) (fs s) =
      replace_at (location path) (Dir r w ty (filter (\<lambda>e. fst e \<noteq> k) es)) (fs s)"
    using remove_entry_child [OF wf l, of k] by simp
  have vi: "victim (fs s) (path @ CHR ''/'' # k) = Inr (location path, w, k, Some n)"
    using c(3) m by simp
  have nm: "names (path @ CHR ''/'' # k) \<noteq> []" "k \<noteq> ''.''" "k \<noteq> ''..''"
    "\<not> trailing_slash (path @ CHR ''/'' # k)"
    using v by (simp_all add: names_child valid_name_def trailing_slash_child)
  show ?thesis
  proof (cases n)
    case (File kd)
    with ns st vi nm rm show ?thesis
      by (simp add: File_unlink_def sys_unlink_def removal_errno_def)
  next
    case (Dir r' w' t' es')
    with ns st vi nm rm show ?thesis
      by (simp add: File_unlink_def sys_rmdir_def removal_errno_def)
  qed
qed

lemma at_dir_entry:
  assumes "at_dir s path (Dir r w ty (pre @ (k, n) # post))"
  shows "valid_name k" and "distinct (map fst (pre @ (k, n) # post))"
    and "map_of (pre @ (k, n) # post) k = Some n"
    and "link_target n = None \<Longrightarrow> resolve (fs s) (path @ ''/'' @ k) = Inr n"
    and "replace_at (location path) (Dir r w ty (pre @ (k, n) # post)) (fs s) = fs s"
proof -
  from assms have wf: "wf_node (fs s)"
    and l: "path_lookup (fs s) (location path) = Inr (Dir r w ty (pre @ (k, n) # post))"
    by (simp_all add: at_dir_def)
  from wf l have wd: "wf_node (Dir r w ty (pre @ (k, n) # post))" by (rule wf_path_lookup)
  then show v: "valid_name k" by simp
  from wd show d: "distinct (map fst (pre @ (k, n) # post))" by simp
  then show m: "map_of (pre @ (k, n) # post) k = Some n" by (rule map_of_distinct_mid)
  show "resolve (fs s) (path @ ''/'' @ k) = Inr n" if "link_target n = None"
    using at_dir_child(2) [OF assms v m that] .
  from wf l show "replace_at (location path) (Dir r w ty (pre @ (k, n) # post)) (fs s) = fs s"
    by (rule replace_at_same)
qed

lemma removal_errno_cases:
  "removal_errno w n = Some e \<Longrightarrow>
     (word_of_int e :: u32) \<noteq> ENONE \<and> (word_of_int e :: u32) \<noteq> - 1"
  by (auto simp: removal_errno_def ENONE_def EACCES_def ENOTEMPTY_def
      split: if_splits node.splits)

lemma Directory_case_REG_child:
  assumes a: "at_dir s path (Dir r w ty (pre @ (k, n) # post))"
    and lk: "link_target n \<noteq> None \<longrightarrow> \<not> File_shouldClobber config k"
  shows "fs (Directory_case_REG config (path @ ''/'' @ k) s) =
      replace_at (location path)
        (Dir r w ty (pre @ fst (walk_file config (path @ ''/'' @ k) w k n) @ post)) (fs s)"
    and "stderr (Directory_case_REG config (path @ ''/'' @ k) s) =
      stderr s @ snd (walk_file config (path @ ''/'' @ k) w k n)"
proof -
  let ?child = "path @ ''/'' @ k"
  note e = at_dir_entry [OF a]
  have b: "basename ?child = k" using e(1) by (rule basename_child)
  have keep: "replace_at (location path) (Dir r w ty (pre @ [(k, n)] @ post)) (fs s) = fs s"
    using e(5) by simp
  have "fs (Directory_case_REG config ?child s) =
      replace_at (location path) (Dir r w ty (pre @ fst (walk_file config ?child w k n) @ post)) (fs s)
    \<and> stderr (Directory_case_REG config ?child s) = stderr s @ snd (walk_file config ?child w k n)"
  proof (cases "File_shouldClobber config k")
    case False
    with b keep show ?thesis
      by (simp add: Directory_case_REG_def File_process_def walk_file_def ENONE_def)
  next
    case True
    show ?thesis
    proof (cases "simulate config")
      case sim: True
      with True b keep show ?thesis
        by (simp add: Directory_case_REG_def File_process_def walk_file_def ENONE_def
            File_unlink_simulate Runtime_putError_def)
    next
      case ns: False
      from lk True have lt: "link_target n = None" by blast
      note fu = File_unlink_child [OF a e(1) e(3) ns lt]
      show ?thesis
      proof (cases "removal_errno w n")
        case None
        with fu True b ns e(2) show ?thesis
          by (simp add: Directory_case_REG_def File_process_def walk_file_def ENONE_def
              filter_fst_notin)
      next
        case (Some er)
        from removal_errno_cases [OF Some] have ne: "(word_of_int er :: u32) \<noteq> ENONE" by simp
        with Some fu True b ns keep show ?thesis
          by (simp add: Directory_case_REG_def File_process_def walk_file_def
              Runtime_putError_def Runtime_verbose_def fmt_u_def Let_def)
      qed
    qed
  qed
  then show "fs (Directory_case_REG config (path @ ''/'' @ k) s) =
      replace_at (location path)
        (Dir r w ty (pre @ fst (walk_file config (path @ ''/'' @ k) w k n) @ post)) (fs s)"
    and "stderr (Directory_case_REG config (path @ ''/'' @ k) s) =
      stderr s @ snd (walk_file config (path @ ''/'' @ k) w k n)"
    by simp_all
qed


lemma Directory_isEmpty_opened:
  assumes "resolve (fs s) path = Inr (Dir True w t es)"
  shows "Directory_isEmpty path s = (es = [], s)"
proof -
  from assms have o: "sys_opendir path s = (Some (dir_stream t es), s\<lparr>open_dirs := open_dirs s + 1\<rparr>)"
    by (simp add: sys_opendir_Some)
  have c: "isEmpty_count (dir_stream t es) 0 = min 3 (length es + 2)"
    using isEmpty_count_eq [of 0 "dir_stream t es"] by (simp add: length_dir_stream)
  have "sys_closedir (s\<lparr>open_dirs := open_dirs s + 1\<rparr>) = s" by (simp add: sys_closedir_def)
  with o c show ?thesis by (cases es) (simp_all add: Directory_isEmpty_def)
qed

lemma walk_Dir_shape:
  "\<exists>es'. fst (walk config path (Dir r w t es)) = Dir r w t es'"
  by (simp add: walk.simps)

lemma walk_unreadable: "\<not> r \<Longrightarrow> walk config path (Dir r w t es) = (Dir r w t es, [])"
  by (simp add: walk.simps)

lemma Directory_case_DIR_child:
  assumes a: "at_dir s path (Dir r w ty (pre @ (k, Dir rn wn tn esn) # post))"
    and rec: "recurse (path @ ''/'' @ k) s = Some (r0, s1)"
      "r0 = (if rn then 0 else EACCES)"
      "fs s1 = replace_at (location path @ [k])
                 (fst (walk config (path @ ''/'' @ k) (Dir rn wn tn esn))) (fs s)"
      "stderr s1 = stderr s @ snd (walk config (path @ ''/'' @ k) (Dir rn wn tn esn))"
      "shrinks (fs s) (fs s1)"
  shows "\<exists>s'. Directory_case_DIR recurse config (path @ ''/'' @ k) k s = Some s' \<and>
      fs s' = replace_at (location path)
        (Dir r w ty (pre @ fst (walk_dir config (path @ ''/'' @ k) w k (Dir rn wn tn esn)
                                   (walk config (path @ ''/'' @ k) (Dir rn wn tn esn))) @ post)) (fs s) \<and>
      stderr s' = stderr s @ snd (walk_dir config (path @ ''/'' @ k) w k (Dir rn wn tn esn)
                                   (walk config (path @ ''/'' @ k) (Dir rn wn tn esn)))"
proof -
  let ?child = "path @ ''/'' @ k"
  let ?n = "Dir rn wn tn esn"
  let ?cs = "location path"
  note e = at_dir_entry [OF a]
  from a have wf: "wf_node (fs s)" and pne: "path \<noteq> []"
    and ndd: "''..'' \<notin> set (names path)"
    and l: "path_lookup (fs s) ?cs = Inr (Dir r w ty (pre @ (k, ?n) # post))"
    by (simp_all add: at_dir_def)
  have keep: "replace_at ?cs (Dir r w ty (pre @ [(k, ?n)] @ post)) (fs s) = fs s"
    using e(5) by simp
  show ?thesis
  proof (cases "preserveHidden config \<and> File_isHidden k")
    case True
    with keep show ?thesis by (simp add: Directory_case_DIR_def walk_dir_def)
  next
    case nh: False
    show ?thesis
    proof (cases rn)
      case False
      then have w0: "walk config ?child ?n = (?n, [])" by (rule walk_unreadable)
      have "path_lookup (fs s) (?cs @ [k]) = Inr ?n"
        using l e(3) by (simp add: path_lookup_entry)
      with wf have "replace_at (?cs @ [k]) ?n (fs s) = fs s" by (rule replace_at_same)
      with rec(3) w0 have fs1: "fs s1 = fs s" by simp
      from rec(4) w0 have e1: "stderr s1 = stderr s" by simp
      have ne: "(word_of_int EACCES :: u32) \<noteq> ENONE" by (simp add: EACCES_def ENONE_def)
      from False rec(1,2) fs1 e1 keep ne show ?thesis
        by (simp add: nh Directory_case_DIR_def walk_dir_def Runtime_putError_def fmt_u_def Let_def)
    next
      case True
      obtain es' where n': "fst (walk config ?child ?n) = Dir rn wn tn es'"
        using walk_Dir_shape by blast
      define ls where "ls = snd (walk config ?child ?n)"
      have fs1: "fs s1 = replace_at ?cs (Dir r w ty (pre @ (k, Dir rn wn tn es') # post)) (fs s)"
        using rec(3) n' replace_at_child [OF wf l, of k "Dir rn wn tn es'"] e(2)
        by (simp add: map_fst_notin)
      have wf1: "wf_node (fs s1)" using rec(5) wf by (rule shrinks_wf)
      have l1: "path_lookup (fs s1) ?cs = Inr (Dir r w ty (pre @ (k, Dir rn wn tn es') # post))"
        unfolding fs1 using l by (rule path_lookup_replace_at)
      have a1: "at_dir s1 path (Dir r w ty (pre @ (k, Dir rn wn tn es') # post))"
        using wf1 pne ndd l1 by (simp add: at_dir_def)
      note e1 = at_dir_entry [OF a1]
      have "resolve (fs s1) ?child = Inr (Dir rn wn tn es')" by (rule e1(4)) simp
      with True have ie: "Directory_isEmpty ?child s1 = (es' = [], s1)"
        by (simp add: Directory_isEmpty_opened)
      have r0: "(word_of_int r0 :: u32) = ENONE" using rec(2) True by (simp add: ENONE_def)
      show ?thesis
      proof (cases "es' = []")
        case ne: False
        with True rec(1,4) r0 ie fs1 n' show ?thesis
          by (simp add: nh Directory_case_DIR_def walk_dir_def Runtime_verbose_def ls_def Let_def)
      next
        case emp: True
        show ?thesis
        proof (cases "simulate config")
          case sim: True
          with \<open>rn\<close> rec(1,4) r0 ie fs1 n' emp show ?thesis
            by (simp add: nh Directory_case_DIR_def walk_dir_def File_unlink_simulate
                Runtime_putError_def Let_def)
        next
          case ns: False
          have "link_target (Dir rn wn tn es') = None" by simp
          note fu = File_unlink_child [OF a1 e1(1) e1(3) ns this]
          show ?thesis
          proof (cases w)
            case ww: True
            then have "removal_errno w (Dir rn wn tn es') = None"
              using emp by (simp add: removal_errno_def)
            with fu have fu': "File_unlink config ?child s1 =
                (0, s1\<lparr>fs := replace_at ?cs (Dir r w ty (pre @ post)) (fs s1)\<rparr>)"
              using e1(2) by (simp add: filter_fst_notin)
            have "replace_at ?cs (Dir r w ty (pre @ post)) (fs s1) =
                replace_at ?cs (Dir r w ty (pre @ post)) (fs s)"
              unfolding fs1 by (rule replace_at_twice)
            with \<open>rn\<close> rec(1,4) r0 ie n' emp ns ww fu' show ?thesis
              by (simp add: nh Directory_case_DIR_def walk_dir_def Let_def)
          next
            case nw: False
            then have "removal_errno w (Dir rn wn tn es') = Some EACCES"
              by (simp add: removal_errno_def)
            with fu have fu': "File_unlink config ?child s1 = (- 1, s1\<lparr>errno := EACCES\<rparr>)"
              by simp
            with \<open>rn\<close> rec(1,4) r0 ie n' emp ns nw fs1 show ?thesis
              by (simp add: nh Directory_case_DIR_def walk_dir_def Runtime_putError_def Let_def)
          qed
        qed
      qed
    qed
  qed
qed


lemma node_dtype_not_WHT: "node_dtype n \<noteq> DT_WHT"
proof (cases n)
  case (File k)
  then show ?thesis by (cases k) simp_all
qed simp

lemma node_dtype_DIR: "node_dtype n = DT_DIR \<longleftrightarrow> is_dir n"
proof (cases n)
  case (File k)
  then show ?thesis by (cases k) simp_all
qed simp

lemma Directory_entry_child:
  assumes a: "at_dir s path (Dir r w ty (pre @ (k, n) # post))"
    and lk: "link_target n \<noteq> None \<longrightarrow> \<not> File_shouldClobber config k"
    and rec: "ty \<Longrightarrow> is_dir n \<Longrightarrow> at_dir s (path @ ''/'' @ k) n \<Longrightarrow>
        walked config (path @ ''/'' @ k) n s (recurse (path @ ''/'' @ k) s)"
  shows "\<exists>s'. Directory_entry recurse config path
            (dirent_of ty (k, n)) s = Some s' \<and>
      fs s' = replace_at (location path)
        (Dir r w ty (pre @ fst (walk_entry config (path @ ''/'' @ k) w ty k n
                                   (walk config (path @ ''/'' @ k) n)) @ post)) (fs s) \<and>
      stderr s' = stderr s @ snd (walk_entry config (path @ ''/'' @ k) w ty k n
                                   (walk config (path @ ''/'' @ k) n)) \<and>
      shrinks (fs s) (fs s')"
proof -
  let ?child = "path @ ''/'' @ k"
  let ?dt = "if ty then node_dtype n else DT_UNKNOWN"
  let ?e = "dirent_of ty (k, n)"
  have de_simps: "d_name ?e = k" "d_type ?e = ?dt" by (simp_all add: dirent_of_def)
  note e = at_dir_entry [OF a]
  from e(1) have nd: "k \<noteq> ''.''" "k \<noteq> ''..''" by (auto simp: valid_name_def)
  from a have wf: "wf_node (fs s)" by (simp add: at_dir_def)
  have keep: "replace_at (location path) (Dir r w ty (pre @ [(k, n)] @ post)) (fs s) = fs s"
    using e(5) by simp
  note reg = Directory_case_REG_child [OF a lk]
  have sh_reg: "shrinks (fs s) (fs (Directory_case_REG config ?child s))"
    by (rule shrinks_Directory_case_REG)
  have special: ?thesis
    if dt: "?dt \<in> {DT_BLK, DT_CHR, DT_FIFO, DT_LNK, DT_SOCK}"
  proof (cases "preserveSpecial config")
    case True
    with dt nd keep show ?thesis
      by (auto simp: Directory_entry_def strcmp_eq_0 Directory_case_special_def walk_entry_def
          de_simps)
  next
    case False
    with dt nd reg sh_reg show ?thesis
      by (auto simp: Directory_entry_def strcmp_eq_0 Directory_case_special_def walk_entry_def
          de_simps)
  qed
  have regular: ?thesis if dt: "?dt \<in> {DT_UNKNOWN, DT_REG}"
    using dt nd reg sh_reg
    by (auto simp: Directory_entry_def strcmp_eq_0 walk_entry_def de_simps)
  show ?thesis
  proof (cases "?dt = DT_DIR")
    case True
    then have ty: ty and isd: "is_dir n" by (auto simp: node_dtype_DIR split: if_splits)
    then obtain rn wn tn esn where n: "n = Dir rn wn tn esn" by (cases n) auto
    have c: "location (path @ CHR ''/'' # k) = location path @ [k]"
      using e(1) by (rule location_child)
    have ac: "at_dir s ?child n"
      using a e(1) e(3) isd by (rule at_dir_child(4))
    from rec [OF ty isd ac] obtain r0 s1 where
      r: "recurse ?child s = Some (r0, s1)" "r0 = (if rn then 0 else EACCES)"
        "fs s1 = replace_at (location path @ [k]) (fst (walk config ?child n)) (fs s)"
        "stderr s1 = stderr s @ snd (walk config ?child n)" "shrinks (fs s) (fs s1)"
      by (auto simp: walked_def n c)
    from Directory_case_DIR_child [where recurse = recurse and pre = pre and post = post
        and path = path and k = k and s = s and config = config,
        OF a [unfolded n] r(1,2) r(3) [unfolded n] r(4) [unfolded n] r(5)]
    obtain s' where s': "Directory_case_DIR recurse config ?child k s = Some s'"
      "fs s' = replace_at (location path)
        (Dir r w ty (pre @ fst (walk_dir config ?child w k n (walk config ?child n)) @ post)) (fs s)"
      "stderr s' = stderr s @ snd (walk_dir config ?child w k n (walk config ?child n))"
      unfolding n by blast
    have de: "Directory_entry recurse config path ?e s = Some s'"
      using True nd s'(1) by (simp add: Directory_entry_def strcmp_eq_0 de_simps)
    have "\<exists>s''. Directory_entry recurse config path ?e s = Some s'' \<and> shrinks (fs s) (fs s'')"
      by (rule Directory_entry_total) (use r in \<open>auto simp: de_simps\<close>)
    with de have "shrinks (fs s) (fs s')" by simp
    with de s'(2,3) True show ?thesis by (simp add: walk_entry_def)
  next
    case False
    have "?dt \<noteq> DT_WHT" using node_dtype_not_WHT [of n] by simp
    with False consider "?dt \<in> {DT_BLK, DT_CHR, DT_FIFO, DT_LNK, DT_SOCK}"
      | "?dt \<in> {DT_UNKNOWN, DT_REG}"
      by (cases ?dt) auto
    then show ?thesis using special regular by cases
  qed
qed


lemma Directory_loop_walk:
  assumes rec: "\<And>k n s. (k, n) \<in> set rest \<Longrightarrow> is_dir n \<Longrightarrow> at_dir s (path @ ''/'' @ k) n \<Longrightarrow>
        walked config (path @ ''/'' @ k) n s (recurse (path @ ''/'' @ k) s)"
  shows "at_dir s path (Dir r w ty (pre @ rest)) \<Longrightarrow>
    \<forall>e \<in> set rest. link_target (snd e) \<noteq> None \<longrightarrow> \<not> File_shouldClobber config (fst e) \<Longrightarrow>
    \<exists>s'. Directory_loop recurse config path
            (map (dirent_of ty) rest) s = Some s' \<and>
      fs s' = replace_at (location path)
        (Dir r w ty (pre @ concat (map (\<lambda>e. fst (walk_entry config (path @ ''/'' @ fst e) w ty
             (fst e) (snd e) (walk config (path @ ''/'' @ fst e) (snd e)))) rest))) (fs s) \<and>
      stderr s' = stderr s @ concat (map (\<lambda>e. snd (walk_entry config (path @ ''/'' @ fst e) w ty
             (fst e) (snd e) (walk config (path @ ''/'' @ fst e) (snd e)))) rest) \<and>
      shrinks (fs s) (fs s')"
  using rec
proof (induction rest arbitrary: pre s)
  case Nil
  then have "replace_at (location path) (Dir r w ty pre) (fs s) = fs s"
    by (simp add: at_dir_def replace_at_same)
  then show ?case by simp
next
  case (Cons e rest)
  obtain k n where e: "e = (k, n)" by (cases e)
  let ?R = "walk_entry config (path @ ''/'' @ k) w ty k n (walk config (path @ ''/'' @ k) n)"
  from Cons.prems(1) have a: "at_dir s path (Dir r w ty (pre @ (k, n) # rest))" by (simp add: e)
  from Cons.prems(2) have lk: "link_target n \<noteq> None \<longrightarrow> \<not> File_shouldClobber config k"
    and lks: "\<forall>e \<in> set rest. link_target (snd e) \<noteq> None \<longrightarrow> \<not> File_shouldClobber config (fst e)"
    by (simp_all add: e)
  have "\<exists>s1. Directory_entry recurse config path
            (dirent_of ty (k, n)) s = Some s1 \<and>
      fs s1 = replace_at (location path) (Dir r w ty (pre @ fst ?R @ rest)) (fs s) \<and>
      stderr s1 = stderr s @ snd ?R \<and> shrinks (fs s) (fs s1)"
    using a lk
  proof (rule Directory_entry_child)
    assume "is_dir n" "at_dir s (path @ ''/'' @ k) n"
    then show "walked config (path @ ''/'' @ k) n s (recurse (path @ ''/'' @ k) s)"
      using Cons.prems(3) [of k n s] by (simp add: e)
  qed
  then obtain s1 where s1: "Directory_entry recurse config path
            (dirent_of ty (k, n)) s = Some s1"
    "fs s1 = replace_at (location path) (Dir r w ty (pre @ fst ?R @ rest)) (fs s)"
    "stderr s1 = stderr s @ snd ?R" "shrinks (fs s) (fs s1)" by blast
  from a have wf: "wf_node (fs s)" and pne: "path \<noteq> []"
    and ndd: "''..'' \<notin> set (names path)"
    and l: "path_lookup (fs s) (location path) = Inr (Dir r w ty (pre @ (k, n) # rest))"
    by (simp_all add: at_dir_def)
  have wf1: "wf_node (fs s1)" using s1(4) wf by (rule shrinks_wf)
  have l1: "path_lookup (fs s1) (location path) = Inr (Dir r w ty ((pre @ fst ?R) @ rest))"
    unfolding s1(2) using path_lookup_replace_at [OF l] by simp
  have a1: "at_dir s1 path (Dir r w ty ((pre @ fst ?R) @ rest))"
    using wf1 pne ndd l1 by (simp add: at_dir_def)
  have rec': "\<And>k n s. (k, n) \<in> set rest \<Longrightarrow> is_dir n \<Longrightarrow> at_dir s (path @ ''/'' @ k) n \<Longrightarrow>
        walked config (path @ ''/'' @ k) n s (recurse (path @ ''/'' @ k) s)"
    using Cons.prems(3) by simp
  from Cons.IH [OF a1 lks rec'] obtain s' where s': "Directory_loop recurse config path
            (map (dirent_of ty) rest) s1 = Some s'"
    "fs s' = replace_at (location path)
        (Dir r w ty ((pre @ fst ?R) @ concat (map (\<lambda>e. fst (walk_entry config (path @ ''/'' @ fst e) w ty
             (fst e) (snd e) (walk config (path @ ''/'' @ fst e) (snd e)))) rest))) (fs s1)"
    "stderr s' = stderr s1 @ concat (map (\<lambda>e. snd (walk_entry config (path @ ''/'' @ fst e) w ty
             (fst e) (snd e) (walk config (path @ ''/'' @ fst e) (snd e)))) rest)"
    "shrinks (fs s1) (fs s')" by blast
  have "fs s' = replace_at (location path)
        (Dir r w ty ((pre @ fst ?R) @ concat (map (\<lambda>e. fst (walk_entry config (path @ ''/'' @ fst e) w ty
             (fst e) (snd e) (walk config (path @ ''/'' @ fst e) (snd e)))) rest))) (fs s)"
    unfolding s'(2) s1(2) by (rule replace_at_twice)
  moreover have "shrinks (fs s) (fs s')" using s1(4) s'(4) by (rule shrinks_trans)
  ultimately show ?case using s1(1,3) s'(1,3) by (simp add: e)
qed

lemma Directory_process_walk:
  "at_dir s path d \<Longrightarrow> is_dir d \<Longrightarrow> height d < n \<Longrightarrow> links_kept config d \<Longrightarrow>
     walked config path d s (Directory_process n config path s)"
proof (induction n arbitrary: path s d)
  case 0
  then show ?case by simp
next
  case (Suc n)
  from Suc.prems(2) obtain r w ty es where d: "d = Dir r w ty es" by (cases d) auto
  from Suc.prems(1) have wf: "wf_node (fs s)" and pne: "path \<noteq> []"
    and l: "path_lookup (fs s) (location path) = Inr d" by (simp_all add: at_dir_def)
  have res: "resolve (fs s) path = Inr d" using Suc.prems(1,2) by (rule at_dir_resolve)
  have same: "replace_at (location path) d (fs s) = fs s" using wf l by (rule replace_at_same)
  show ?case
  proof (cases r)
    case False
    with res d have o: "sys_opendir path s = (None, s\<lparr>errno := EACCES\<rparr>)"
      by (simp add: sys_opendir_def)
    have "sint (word_of_int EACCES :: u32) = EACCES" by (simp add: EACCES_def)
    with o False d same show ?thesis
      by (simp add: walked_def Directory_body_def walk_unreadable)
  next
    case True
    let ?s1 = "s\<lparr>open_dirs := open_dirs s + 1\<rparr>"
    from res d True have o: "sys_opendir path s = (Some (dir_stream ty es), ?s1)"
      by (simp add: sys_opendir_def)
    have a1: "at_dir ?s1 path (Dir r w ty ([] @ es))"
      using Suc.prems(1) d by (simp add: at_dir_def)
    have rec: "walked config (path @ ''/'' @ k) m t (Directory_process n config (path @ ''/'' @ k) t)"
      if "(k, m) \<in> set es" "is_dir m" "at_dir t (path @ ''/'' @ k) m" for k m t
    proof -
      from Suc.prems(3) d that(1) have "height m < n" by force
      moreover from Suc.prems(4) d that(1) have "links_kept config m" by force
      ultimately show ?thesis using that(3,2) Suc.IH by blast
    qed
    have lks: "\<forall>e \<in> set es. link_target (snd e) \<noteq> None \<longrightarrow> \<not> File_shouldClobber config (fst e)"
      using Suc.prems(4) d by simp
    from Directory_loop_walk [where recurse = "Directory_process n config" and rest = es
        and pre = "[]" and config = config, OF rec a1 lks]
    obtain s2 where s2: "Directory_loop (Directory_process n config) config path
            (map (dirent_of ty) es) ?s1 = Some s2"
      "fs s2 = replace_at (location path)
        (Dir r w ty (concat (map (\<lambda>e. fst (walk_entry config (path @ ''/'' @ fst e) w ty
             (fst e) (snd e) (walk config (path @ ''/'' @ fst e) (snd e)))) es))) (fs s)"
      "stderr s2 = stderr s @ concat (map (\<lambda>e. snd (walk_entry config (path @ ''/'' @ fst e) w ty
             (fst e) (snd e) (walk config (path @ ''/'' @ fst e) (snd e)))) es)"
      "shrinks (fs s) (fs s2)" by auto
    have lp: "Directory_loop (Directory_process n config) config path (dir_stream ty es) ?s1 = Some s2"
      using s2(1) by (simp add: dir_stream_def Directory_entry_def)
    from o lp s2(2,3,4) True d show ?thesis
      by (simp add: walked_def Directory_body_def walk.simps ENONE_def sys_closedir_def)
  qed
qed


section \<open>A second walk\<close>

lemma walk_entry_again:
  assumes idem: "walk config child (fst (walk config child n)) = walk config child n"
    and quiet: "\<not> simulate config \<longrightarrow> entries (fst (walk config child n)) = [] \<longrightarrow>
        snd (walk config child n) = []"
  shows "(fst (walk_entry config child w t k n (walk config child n)) = [] \<and>
          snd (walk_entry config child w t k n (walk config child n)) = []) \<or>
         (\<exists>m. fst (walk_entry config child w t k n (walk config child n)) = [(k, m)] \<and>
            walk_entry config child w t k m (walk config child m) =
            walk_entry config child w t k n (walk config child n))"
proof (cases "(if t then node_dtype n else DT_UNKNOWN) = DT_DIR")
  case True
  then have t: t and "is_dir n" by (auto simp: node_dtype_DIR split: if_splits)
  then obtain rn wn tn esn where n: "n = Dir rn wn tn esn" by (cases n) auto
  obtain es' where n': "fst (walk config child n) = Dir rn wn tn es'"
    unfolding n using walk_Dir_shape by blast
  define ls where "ls = snd (walk config child n)"
  have again: "walk config child (Dir rn wn tn es') = (Dir rn wn tn es', ls)"
    using idem n' by (simp add: ls_def prod_eq_iff)
  have wn: "walk config child n = (Dir rn wn tn es', ls)"
    using n' by (simp add: ls_def prod_eq_iff)
  have R: "walk_entry config child w t k n (walk config child n) =
      walk_dir config child w k n (Dir rn wn tn es', ls)"
    using True by (simp add: walk_entry_def wn)
  have R': "walk_entry config child w t k (Dir rn wn tn es') (walk config child (Dir rn wn tn es')) =
      walk_dir config child w k (Dir rn wn tn es') (Dir rn wn tn es', ls)"
    using t again by (simp add: walk_entry_def)
  have Rn: "walk_entry config child w t k n (walk config child n) =
      walk_dir config child w k n (walk config child n)"
    using True by (simp add: walk_entry_def)
  show ?thesis
  proof (cases "(preserveHidden config \<and> File_isHidden k) \<or> \<not> rn")
    case True
    then have "fst (walk_dir config child w k n (walk config child n)) = [(k, n)]"
      by (auto simp: walk_dir_def n)
    then have "fst (walk_entry config child w t k n (walk config child n)) = [(k, n)]"
      by (simp only: Rn)
    then show ?thesis by blast
  next
    case False
    then have nh: "\<not> (preserveHidden config \<and> File_isHidden k)" and rn: rn by auto
    show ?thesis
    proof (cases "es' = [] \<and> \<not> simulate config \<and> w")
      case True
      with quiet n' have "ls = []" by (simp add: ls_def)
      with True rn show ?thesis unfolding R by (simp add: walk_dir_def n nh)
    next
      case False
      with rn have "fst (walk_dir config child w k n (Dir rn wn tn es', ls)) = [(k, Dir rn wn tn es')]"
        by (auto simp: walk_dir_def n nh)
      moreover from rn have "walk_dir config child w k (Dir rn wn tn es') (Dir rn wn tn es', ls) =
          walk_dir config child w k n (Dir rn wn tn es', ls)"
        by (simp add: walk_dir_def n nh)
      ultimately show ?thesis unfolding R using R' by auto
    qed
  qed
next
  case False
  have we: "walk_entry config child w t k n x =
      (if (if t then node_dtype n else DT_UNKNOWN) \<in> {DT_BLK, DT_CHR, DT_FIFO, DT_LNK, DT_SOCK}
            \<and> preserveSpecial config
       then ([(k, n)], []) else walk_file config child w k n)" for x
    using False by (simp add: walk_entry_def Let_def)
  have "walk_file config child w k n = ([], []) \<or>
      (\<exists>ls. walk_file config child w k n = ([(k, n)], ls))"
    by (auto simp: walk_file_def split: option.splits)
  then have "walk_entry config child w t k n (walk config child n) = ([], []) \<or>
      (\<exists>ls. walk_entry config child w t k n (walk config child n) = ([(k, n)], ls))"
    unfolding we by auto
  then show ?thesis
  proof
    assume "walk_entry config child w t k n (walk config child n) = ([], [])"
    then show ?thesis by simp
  next
    assume "\<exists>ls. walk_entry config child w t k n (walk config child n) = ([(k, n)], ls)"
    then have "fst (walk_entry config child w t k n (walk config child n)) = [(k, n)]" by auto
    then show ?thesis by blast
  qed
qed

lemma concat_map_again:
  assumes "\<And>e. e \<in> set es \<Longrightarrow>
      (F e = [] \<and> G e = []) \<or> (\<exists>e'. F e = [e'] \<and> F e' = F e \<and> G e' = G e)"
  shows "concat (map F (concat (map F es))) = concat (map F es) \<and>
         concat (map G (concat (map F es))) = concat (map G es)"
  using assms
proof (induction es)
  case Nil
  show ?case by simp
next
  case (Cons e es)
  from Cons.prems [of e] consider "F e = []" "G e = []"
    | e' where "F e = [e']" "F e' = F e" "G e' = G e" by auto
  then show ?case
  proof cases
    case 1
    with Cons show ?thesis by simp
  next
    case 2
    with Cons show ?thesis by simp
  qed
qed

lemma concat_map_quiet:
  assumes "\<And>e. e \<in> set es \<Longrightarrow> F e = [] \<Longrightarrow> G e = []" "concat (map F es) = []"
  shows "concat (map G es) = []"
  using assms by (induction es) auto

lemma walk_again:
  "walk config path (fst (walk config path d)) = walk config path d \<and>
   (\<not> simulate config \<longrightarrow> entries (fst (walk config path d)) = [] \<longrightarrow>
      snd (walk config path d) = [])"
proof (induction config path d rule: walk.induct)
  case (1 config path k)
  show ?case by (simp add: walk.simps)
next
  case (2 config path r w t es)
  show ?case
  proof (cases r)
    case False
    then show ?thesis by (simp add: walk.simps)
  next
    case True
    let ?F = "\<lambda>e. fst (walk_entry config (path @ ''/'' @ fst e) w t (fst e) (snd e)
                        (walk config (path @ ''/'' @ fst e) (snd e)))"
    let ?G = "\<lambda>e. snd (walk_entry config (path @ ''/'' @ fst e) w t (fst e) (snd e)
                        (walk config (path @ ''/'' @ fst e) (snd e)))"
    have w1: "walk config path (Dir r w t es) =
        (Dir r w t (concat (map ?F es)), concat (map ?G es))"
      using True by (simp add: walk.simps)
    have w2: "walk config path (Dir r w t (concat (map ?F es))) =
        (Dir r w t (concat (map ?F (concat (map ?F es)))), concat (map ?G (concat (map ?F es))))"
      using True by (simp add: walk.simps)
    have entry: "(?F e = [] \<and> ?G e = []) \<or> (\<exists>e'. ?F e = [e'] \<and> ?F e' = ?F e \<and> ?G e' = ?G e)"
      if e: "e \<in> set es" for e
    proof -
      from "2.IH"(1) [OF _ e] True
      have ih: "walk config (path @ ''/'' @ fst e) (fst (walk config (path @ ''/'' @ fst e) (snd e)))
          = walk config (path @ ''/'' @ fst e) (snd e)"
        "\<not> simulate config \<longrightarrow> entries (fst (walk config (path @ ''/'' @ fst e) (snd e))) = [] \<longrightarrow>
          snd (walk config (path @ ''/'' @ fst e) (snd e)) = []"
        by simp_all
      from walk_entry_again [OF ih(1) ih(2), of w t "fst e"]
      consider "?F e = []" "?G e = []"
        | m where "?F e = [(fst e, m)]"
          "walk_entry config (path @ ''/'' @ fst e) w t (fst e) m (walk config (path @ ''/'' @ fst e) m)
            = walk_entry config (path @ ''/'' @ fst e) w t (fst e) (snd e)
                (walk config (path @ ''/'' @ fst e) (snd e))"
        by blast
      then show ?thesis
      proof cases
        case 1
        then show ?thesis by simp
      next
        case 2
        have "?F (fst e, m) = ?F e \<and> ?G (fst e, m) = ?G e" using 2(2) by simp
        with 2(1) show ?thesis by blast
      qed
    qed
    from concat_map_again [of es ?F ?G, OF entry]
    have a: "concat (map ?F (concat (map ?F es))) = concat (map ?F es)"
      "concat (map ?G (concat (map ?F es))) = concat (map ?G es)" by simp_all
    have q: "concat (map ?G es) = []" if "concat (map ?F es) = []"
    proof (rule concat_map_quiet [of es ?F ?G])
      fix e assume "e \<in> set es" "?F e = []"
      with entry [of e] show "?G e = []" by auto
    qed (rule that)
    show ?thesis unfolding w1 using w2 a q by simp
  qed
qed



lemma walk_entry_fst_path:
  "fst sub1 = fst sub2 \<Longrightarrow>
     fst (walk_entry config c1 w t name n sub1) = fst (walk_entry config c2 w t name n sub2)"
  by (simp add: walk_entry_def walk_dir_def walk_file_def Let_def split: option.splits)

lemma walk_fst_path: "fst (walk config p d) = fst (walk config q d)"
proof (induction config p d arbitrary: q rule: walk.induct)
  case (1 config path k)
  then show ?case by (simp add: walk.simps)
next
  case (2 config path r w t es)
  show ?case
  proof (cases r)
    case False
    then show ?thesis by (simp add: walk.simps)
  next
    case True
    have "fst (walk_entry config (path @ ''/'' @ fst e) w t (fst e) (snd e)
                 (walk config (path @ ''/'' @ fst e) (snd e))) =
          fst (walk_entry config (q @ ''/'' @ fst e) w t (fst e) (snd e)
                 (walk config (q @ ''/'' @ fst e) (snd e)))" if "e \<in> set es" for e
      using "2.IH" [OF _ that, of "q @ ''/'' @ fst e"] True
      by (intro walk_entry_fst_path) simp
    then show ?thesis using True by (simp add: walk.simps cong: map_cong)
  qed
qed

lemma walk_again_path: "walk config q (fst (walk config p d)) = walk config q d"
  using walk_again [of config q d] walk_fst_path [of config p d q] by simp

lemma walk_entry_mem:
  "e' \<in> set (fst (walk_entry config child w t k n sub)) \<Longrightarrow>
     e' = (k, n) \<or> (e' = (k, fst sub) \<and> is_dir n)"
  by (auto simp: walk_entry_def walk_dir_def walk_file_def Let_def node_dtype_DIR
      split: if_splits option.splits)

lemma walk_links_kept:
  "links_kept config d \<Longrightarrow> links_kept config (fst (walk config path d))"
proof (induction config path d rule: walk.induct)
  case (1 config path k)
  show ?case by (simp add: walk.simps)
next
  case (2 config path r w t es)
  show ?case
  proof (cases r)
    case False
    with "2.prems" show ?thesis by (simp add: walk.simps)
  next
    case True
    let ?F = "\<lambda>e. fst (walk_entry config (path @ ''/'' @ fst e) w t (fst e) (snd e)
                        (walk config (path @ ''/'' @ fst e) (snd e)))"
    have w1: "fst (walk config path (Dir r w t es)) = Dir r w t (concat (map ?F es))"
      using True by (simp add: walk.simps)
    have "(link_target (snd e') \<noteq> None \<longrightarrow> \<not> File_shouldClobber config (fst e')) \<and>
        links_kept config (snd e')" if e': "e' \<in> set (concat (map ?F es))" for e'
    proof -
      from e' obtain e where e: "e \<in> set es" "e' \<in> set (?F e)" by auto
      from "2.prems" e(1) have k: "link_target (snd e) \<noteq> None \<longrightarrow> \<not> File_shouldClobber config (fst e)"
        "links_kept config (snd e)" by auto
      from walk_entry_mem [OF e(2)] consider "e' = (fst e, snd e)"
        | "e' = (fst e, fst (walk config (path @ ''/'' @ fst e) (snd e)))" "is_dir (snd e)"
        by blast
      then show ?thesis
      proof cases
        case 1
        with k show ?thesis by simp
      next
        case 2
        from 2(2) obtain rn wn tn esn where n: "snd e = Dir rn wn tn esn"
          by (cases "snd e") auto
        obtain es' where sh: "fst (walk config (path @ ''/'' @ fst e) (snd e)) = Dir rn wn tn es'"
          unfolding n using walk_Dir_shape by blast
        from "2.IH"(1) [OF _ e(1) k(2)] True
        have "links_kept config (fst (walk config (path @ ''/'' @ fst e) (snd e)))" by simp
        with 2(1) sh show ?thesis by simp
      qed
    qed
    then show ?thesis unfolding w1 by simp
  qed
qed

section \<open>Roots that are apart\<close>

lemma apart_sym: "apart p q \<Longrightarrow> apart q p"
  by (simp add: apart_def)

lemma path_lookup_replace_at_apart:
  "apart p q \<Longrightarrow> path_lookup (replace_at p x t) q = path_lookup t q"
proof (induction p x t arbitrary: q rule: replace_at.induct)
  case (1 x n)
  then show ?case by (simp add: apart_def)
next
  case (2 c cs x k)
  then show ?case by simp
next
  case (3 c cs x r w t es)
  show ?case
  proof (cases q)
    case Nil
    with "3.prems" show ?thesis by (simp add: apart_def)
  next
    case (Cons d ds)
    show ?thesis
    proof (cases "d = c")
      case False
      with Cons show ?thesis by (simp add: map_of_map_entry)
    next
      case True
      with "3.prems" Cons have ap: "apart cs ds" by (simp add: apart_def)
      show ?thesis
      proof (cases "map_of es c")
        case None
        with True Cons show ?thesis by (simp add: map_of_map_entry)
      next
        case (Some n0)
        then have "(c, n0) \<in> set es" by (rule map_of_SomeD)
        from "3.IH" [OF this _ ap] have "path_lookup (replace_at cs x n0) ds = path_lookup n0 ds"
          by simp
        with True Cons Some show ?thesis by (simp add: map_of_map_entry)
      qed
    qed
  qed
qed

section \<open>Runs over roots none of which lies inside another\<close>

lemma Directory_isEmpty_dir:
  assumes "resolve (fs s) path = Inr (Dir r w t es)"
  shows "Directory_isEmpty path s =
     (if r then (es = [], s)
      else (False, s\<lparr>errno := EACCES,
              stderr := stderr s @ [''Directory_isEmpty('' @ path @
                 ''): could not open directory: ERRNO '' @ fmt_u EACCES @ ''\<newline>'']\<rparr>))"
proof (cases r)
  case True
  with assms show ?thesis by (simp add: Directory_isEmpty_opened)
next
  case False
  with assms have "sys_opendir path s = (None, s\<lparr>errno := EACCES\<rparr>)"
    by (simp add: sys_opendir_def)
  with False show ?thesis by (simp add: Directory_isEmpty_def Runtime_putError_def)
qed

lemma Directory_isEmpty_at:
  assumes "resolve (fs s) path = Inr (Dir r w t es)"
  shows "\<exists>s'. Directory_isEmpty path s = (r \<and> es = [], s') \<and> fs s' = fs s \<and>
      stderr s' = stderr s @
        (if r then []
         else [''Directory_isEmpty('' @ path @ ''): could not open directory: ERRNO '' @
                 fmt_u EACCES @ ''\<newline>''])"
  by (simp add: Directory_isEmpty_dir [OF assms])

lemma at_dir_fs: "at_dir s path d \<Longrightarrow> fs t = fs s \<Longrightarrow> at_dir t path d"
  by (simp add: at_dir_def)

lemma root_dir_at_dir:
  "wf_node (fs s) \<Longrightarrow> root_dir config (fs s) root \<Longrightarrow>
     at_dir s root (node_at (fs s) (location root)) \<and> is_dir (node_at (fs s) (location root)) \<and>
     links_kept config (node_at (fs s) (location root))"
  by (auto simp: root_dir_def at_dir_def node_at_def split: sum.splits)

lemma main_loop_root:
  assumes a: "at_dir s root d" and d: "is_dir d" and h: "height d < depth"
    and lk: "links_kept config d"
  shows "\<exists>s'. (\<forall>rest dirty. main_loop depth config (root # rest) dirty s =
            main_loop depth config rest (dirty \<or> root_dirty config root d) s') \<and>
      fs s' = replace_at (location root) (fst (walk config root d)) (fs s) \<and>
      stderr s' = stderr s @ root_out config root d \<and> shrinks (fs s) (fs s')"
proof -
  define V where "V = Runtime_verbose config (''Processing directory '' @ root @ ''\<newline>'')"
  define vl where "vl = (if verbose config then [''Processing directory '' @ root @ ''\<newline>''] else [])"
  have V: "fs (V t) = fs t" "stderr (V t) = stderr t @ vl" for t
    by (simp_all add: V_def vl_def Runtime_verbose_def)
  have aV: "at_dir (V s) root d" using a by (rule at_dir_fs) (simp add: V)
  from Directory_process_walk [OF aV d h lk] obtain r0 s1 where
    dp: "Directory_process depth config root (V s) = Some (r0, s1)"
    and f1: "fs s1 = replace_at (location root) (fst (walk config root d)) (fs s)"
    and e1: "stderr s1 = stderr s @ vl @ snd (walk config root d)"
    and sh: "shrinks (fs s) (fs s1)"
    by (auto simp: walked_def V)
  define d' where "d' = fst (walk config root d)"
  from d obtain r w t es where dd: "d = Dir r w t es" by (cases d) auto
  obtain es' where d'': "d' = Dir r w t es'"
    unfolding d'_def dd using walk_Dir_shape by blast
  from a have wf: "wf_node (fs s)" and pne: "root \<noteq> []"
    and ndd: "''..'' \<notin> set (names root)"
    and l: "path_lookup (fs s) (location root) = Inr d" by (simp_all add: at_dir_def)
  have wf1: "wf_node (fs s1)" using sh wf by (rule shrinks_wf)
  have l1: "path_lookup (fs s1) (location root) = Inr d'"
    unfolding f1 d'_def using l by (rule path_lookup_replace_at)
  have a1: "at_dir s1 root d'" using wf1 pne ndd l1 by (simp add: at_dir_def)
  have r1: "resolve (fs s1) root = Inr (Dir r w t es')"
    using at_dir_resolve [OF a1] d'' by simp
  from Directory_isEmpty_at [OF r1] obtain s1' where
    ie: "Directory_isEmpty root s1 = (r \<and> es' = [], s1')" "fs s1' = fs s1"
      "stderr s1' = stderr s1 @
        (if r then []
         else [''Directory_isEmpty('' @ root @ ''): could not open directory: ERRNO '' @
                 fmt_u EACCES @ ''\<newline>''])" by blast
  have st: "sys_stat root s = ((0, True), s)"
    using at_dir_resolve [OF a d] d by (simp add: sys_stat_def)
  have rd: "root_dirty config root d \<longleftrightarrow> \<not> (r \<and> es' = [])"
    using d'' by (simp add: root_dirty_def d'_def [symmetric])
  have step: "main_loop depth config (root # rest) dirty s =
            main_loop depth config rest (dirty \<or> root_dirty config root d) s1'" for rest dirty
    using st dp ie(1) rd by (auto simp: V_def)
  have out: "stderr s1' = stderr s @ root_out config root d"
    using ie(3) e1 d'' by (simp add: root_out_def vl_def d'_def [symmetric])
  have "shrinks (fs s) (fs s1')" using sh ie(2) by simp
  with step out ie(2) f1 show ?thesis by auto
qed

lemma root_dir_walked:
  assumes wf: "wf_node (fs (s :: world))" and rd: "root_dir config (fs s) root"
    and l1: "path_lookup t (location root) =
       Inr (fst (walk config root (node_at (fs s) (location root))))"
  shows "root_dir config t root"
    and "walk config root (node_at t (location root)) =
       walk config root (node_at (fs s) (location root))"
    and "fst (walk config root (node_at t (location root))) = node_at t (location root)"
proof -
  define d where "d = node_at (fs s) (location root)"
  define d' where "d' = fst (walk config root d)"
  from root_dir_at_dir [OF wf rd] have isd: "is_dir d" and lk: "links_kept config d"
    by (simp_all add: d_def)
  from isd obtain r w ty es where dd: "d = Dir r w ty es" by (cases d) auto
  obtain es' where sh: "d' = Dir r w ty es'" unfolding d'_def dd using walk_Dir_shape by blast
  have lk': "links_kept config d'" unfolding d'_def using lk by (rule walk_links_kept)
  from l1 have n: "node_at t (location root) = d'" by (simp add: node_at_def d_def d'_def)
  from rd l1 sh lk' show "root_dir config t root"
    by (simp add: root_dir_def d_def [symmetric] d'_def [symmetric])
  have wa: "walk config root d' = walk config root d"
    using walk_again [of config root d] by (simp add: d'_def)
  then show "walk config root (node_at t (location root)) =
       walk config root (node_at (fs s) (location root))"
    by (simp add: n d_def)
  from wa show "fst (walk config root (node_at t (location root))) = node_at t (location root)"
    by (simp add: n d'_def)
qed

lemma main_loop_first:
  "wf_node (fs s) \<Longrightarrow> height (fs s) < depth \<Longrightarrow>
   \<forall>root \<in> set roots. root_dir config (fs s) root \<Longrightarrow> roots_unnested roots \<Longrightarrow>
   \<exists>s'. main_loop depth config roots dirty s =
           Some (dirty \<or> (\<exists>root \<in> set roots.
                   root_dirty config root (node_at (fs s) (location root))), s') \<and>
     stderr s' = stderr s @
        concat (map (\<lambda>root. root_out config root (node_at (fs s) (location root))) roots) \<and>
     shrinks (fs s) (fs s') \<and>
     (\<forall>root \<in> set roots. path_lookup (fs s') (location root) =
         Inr (fst (walk config root (node_at (fs s) (location root))))) \<and>
     (\<forall>q. (\<forall>root \<in> set roots. apart (location root) q) \<longrightarrow>
         path_lookup (fs s') q = path_lookup (fs s) q)"
proof (induction roots arbitrary: s dirty)
  case Nil
  then show ?case by simp
next
  case (Cons root roots)
  define d where "d = node_at (fs s) (location root)"
  from Cons.prems(3) have rd: "root_dir config (fs s) root" by simp
  from root_dir_at_dir [OF Cons.prems(1) rd]
  have a: "at_dir s root d" and isd: "is_dir d" and lk: "links_kept config d"
    by (simp_all add: d_def)
  from a have l: "path_lookup (fs s) (location root) = Inr d" by (simp add: at_dir_def)
  have "hat (fs s) (location root) \<le> height (fs s)" by (rule hat_le_height)
  with l Cons.prems(2) have h: "height d < depth" by (simp add: hat_def)
  from main_loop_root [OF a isd h lk] obtain s1 where
    step: "\<And>rest dirty. main_loop depth config (root # rest) dirty s =
            main_loop depth config rest (dirty \<or> root_dirty config root d) s1"
    and f1: "fs s1 = replace_at (location root) (fst (walk config root d)) (fs s)"
    and o1: "stderr s1 = stderr s @ root_out config root d"
    and sh1: "shrinks (fs s) (fs s1)" by blast
  have wf1: "wf_node (fs s1)" using sh1 Cons.prems(1) by (rule shrinks_wf)
  have h1: "height (fs s1) < depth" using shrinks_height [OF sh1] Cons.prems(2) by simp
  from Cons.prems(4)
  have ap: "\<forall>q \<in> set roots. location q = location root \<or> apart (location root) (location q)"
    and aps: "roots_unnested roots" by simp_all
  have l1: "path_lookup (fs s1) (location root) = Inr (fst (walk config root d))"
    unfolding f1 using l by (rule path_lookup_replace_at)
  have same: "path_lookup (fs s1) q = path_lookup (fs s) q" if "apart (location root) q" for q
    unfolding f1 using that by (rule path_lookup_replace_at_apart)
  have each: "root_dir config (fs s1) q \<and>
      walk config q (node_at (fs s1) (location q)) = walk config q (node_at (fs s) (location q))"
    if q: "q \<in> set roots" for q
  proof (cases "location q = location root")
    case True
    from q Cons.prems(3) have rq: "root_dir config (fs s) q" by simp
    have "path_lookup (fs s1) (location q) = Inr (fst (walk config q (node_at (fs s) (location q))))"
      using l1 True walk_fst_path [of config root d q] by (simp add: d_def)
    from root_dir_walked(1,2) [OF Cons.prems(1) rq this] show ?thesis by simp
  next
    case False
    with ap q have "apart (location root) (location q)" by blast
    then have "path_lookup (fs s1) (location q) = path_lookup (fs s) (location q)" by (rule same)
    with Cons.prems(3) q show ?thesis by (simp add: root_dir_def node_at_def)
  qed
  then have rds: "\<forall>q \<in> set roots. root_dir config (fs s1) q" by blast
  have ro: "root_out config q (node_at (fs s1) (location q)) =
      root_out config q (node_at (fs s) (location q))"
    and rt: "root_dirty config q (node_at (fs s1) (location q)) =
      root_dirty config q (node_at (fs s) (location q))" if "q \<in> set roots" for q
    using each [OF that] by (simp_all add: root_out_def root_dirty_def)
  from Cons.IH [OF wf1 h1 rds aps, of "dirty \<or> root_dirty config root d"] obtain s' where
    ml: "main_loop depth config roots (dirty \<or> root_dirty config root d) s1 =
           Some ((dirty \<or> root_dirty config root d) \<or> (\<exists>q \<in> set roots.
                   root_dirty config q (node_at (fs s1) (location q))), s')"
    and o': "stderr s' = stderr s1 @
        concat (map (\<lambda>q. root_out config q (node_at (fs s1) (location q))) roots)"
    and sh': "shrinks (fs s1) (fs s')"
    and l': "\<forall>q \<in> set roots. path_lookup (fs s') (location q) =
         Inr (fst (walk config q (node_at (fs s1) (location q))))"
    and fr': "\<forall>q. (\<forall>root \<in> set roots. apart (location root) q) \<longrightarrow>
         path_lookup (fs s') q = path_lookup (fs s1) q" by blast
  have "(\<exists>q \<in> set roots. root_dirty config q (node_at (fs s1) (location q))) \<longleftrightarrow>
      (\<exists>q \<in> set roots. root_dirty config q (node_at (fs s) (location q)))"
    using rt by blast
  then have A: "main_loop depth config (root # roots) dirty s =
           Some (dirty \<or> (\<exists>q \<in> set (root # roots).
                   root_dirty config q (node_at (fs s) (location q))), s')"
    using step [of roots dirty] ml by (auto simp: d_def)
  have "concat (map (\<lambda>q. root_out config q (node_at (fs s1) (location q))) roots) =
      concat (map (\<lambda>q. root_out config q (node_at (fs s) (location q))) roots)"
    using ro by (simp cong: map_cong)
  with o' o1 have B: "stderr s' = stderr s @
        concat (map (\<lambda>q. root_out config q (node_at (fs s) (location q))) (root # roots))"
    by (simp add: d_def)
  have C: "shrinks (fs s) (fs s')" using sh1 sh' by (rule shrinks_trans)
  have l'': "\<forall>q \<in> set roots. path_lookup (fs s') (location q) =
         Inr (fst (walk config q (node_at (fs s) (location q))))"
    using l' each by simp
  have D1: "path_lookup (fs s') (location root) = Inr (fst (walk config root d))"
  proof (cases "\<exists>q \<in> set roots. location q = location root")
    case True
    then obtain q where q: "q \<in> set roots" "location q = location root" by blast
    with l'' have "path_lookup (fs s') (location root) = Inr (fst (walk config q d))"
      by (auto simp: d_def)
    then show ?thesis using walk_fst_path [of config q d root] by simp
  next
    case False
    with ap have "\<forall>q \<in> set roots. apart (location q) (location root)"
      by (blast intro: apart_sym)
    with fr' have "path_lookup (fs s') (location root) = path_lookup (fs s1) (location root)"
      by blast
    with l1 show ?thesis by simp
  qed
  have D: "\<forall>q \<in> set (root # roots). path_lookup (fs s') (location q) =
         Inr (fst (walk config q (node_at (fs s) (location q))))"
    using D1 l'' by (simp add: d_def)
  have E: "\<forall>q. (\<forall>r \<in> set (root # roots). apart (location r) q) \<longrightarrow>
         path_lookup (fs s') q = path_lookup (fs s) q"
    using fr' same by simp
  from A B C D E show ?case by blast
qed

lemma main_loop_settled:
  "wf_node (fs t) \<Longrightarrow> height (fs t) < depth \<Longrightarrow>
   \<forall>root \<in> set roots. root_dir config (fs t) root \<and>
      fst (walk config root (node_at (fs t) (location root))) = node_at (fs t) (location root) \<Longrightarrow>
   \<exists>t'. main_loop depth config roots dirty t =
           Some (dirty \<or> (\<exists>root \<in> set roots.
                   root_dirty config root (node_at (fs t) (location root))), t') \<and>
     fs t' = fs t \<and>
     stderr t' = stderr t @
        concat (map (\<lambda>root. root_out config root (node_at (fs t) (location root))) roots)"
proof (induction roots arbitrary: t dirty)
  case Nil
  then show ?case by simp
next
  case (Cons root roots)
  define d where "d = node_at (fs t) (location root)"
  from Cons.prems(3) have rd: "root_dir config (fs t) root"
    and fp: "fst (walk config root d) = d" by (simp_all add: d_def)
  from root_dir_at_dir [OF Cons.prems(1) rd]
  have a: "at_dir t root d" and isd: "is_dir d" and lk: "links_kept config d"
    by (simp_all add: d_def)
  from a have l: "path_lookup (fs t) (location root) = Inr d" by (simp add: at_dir_def)
  have "hat (fs t) (location root) \<le> height (fs t)" by (rule hat_le_height)
  with l Cons.prems(2) have h: "height d < depth" by (simp add: hat_def)
  from main_loop_root [OF a isd h lk] obtain t1 where
    step: "\<And>rest dirty. main_loop depth config (root # rest) dirty t =
            main_loop depth config rest (dirty \<or> root_dirty config root d) t1"
    and f1: "fs t1 = replace_at (location root) (fst (walk config root d)) (fs t)"
    and o1: "stderr t1 = stderr t @ root_out config root d" by blast
  have "replace_at (location root) d (fs t) = fs t"
    using Cons.prems(1) l by (rule replace_at_same)
  with f1 fp have fs1: "fs t1 = fs t" by simp
  from Cons.prems fs1 have p: "wf_node (fs t1)" "height (fs t1) < depth"
    "\<forall>root \<in> set roots. root_dir config (fs t1) root \<and>
      fst (walk config root (node_at (fs t1) (location root))) = node_at (fs t1) (location root)"
    by simp_all
  from Cons.IH [OF p, of "dirty \<or> root_dirty config root d"] fs1 obtain t' where
    "main_loop depth config roots (dirty \<or> root_dirty config root d) t1 =
           Some ((dirty \<or> root_dirty config root d) \<or> (\<exists>q \<in> set roots.
                   root_dirty config q (node_at (fs t) (location q))), t')"
    "fs t' = fs t"
    "stderr t' = stderr t1 @
        concat (map (\<lambda>q. root_out config q (node_at (fs t) (location q))) roots)"
    by auto
  with step [of roots dirty] o1 show ?case by (auto simp: d_def)
qed

lemma main_Some:
  "roots \<noteq> [] \<Longrightarrow> main_loop depth config roots False s = Some (d, s') \<Longrightarrow>
     main depth config imageName roots s = Some (if d then ENOTEMPTY else 0, s')"
  by (simp add: main_def ENONE_def)

section \<open>The exit status (claim C8)\<close>

lemma Directory_isEmpty_iff:
  "fst (Directory_isEmpty path s) \<longleftrightarrow> (\<exists>w t. resolve (fs s) path = Inr (Dir True w t []))"
proof
  assume "fst (Directory_isEmpty path s)"
  then show "\<exists>w t. resolve (fs s) path = Inr (Dir True w t [])"
    using Directory_isEmpty_True by blast
next
  assume "\<exists>w t. resolve (fs s) path = Inr (Dir True w t [])"
  then obtain w t where "resolve (fs s) path = Inr (Dir True w t [])" by blast
  then have "sys_opendir path s = (Some (dir_stream t []), s\<lparr>open_dirs := open_dirs s + 1\<rparr>)"
    by (simp add: sys_opendir_Some)
  then show "fst (Directory_isEmpty path s)"
    by (simp add: Directory_isEmpty_def dir_stream_def)
qed

lemma main_loop_dirty:
  "main_loop depth config files dirty s = Some (d, s') \<Longrightarrow>
     (d \<longleftrightarrow> dirty \<or>
        (\<exists>pre root post d0 s0 r1 s1. files = pre @ root # post \<and>
           main_loop depth config pre dirty s = Some (d0, s0) \<and>
           snd (fst (sys_stat root s0)) \<and>
           Directory_process depth config root
             (Runtime_verbose config (''Processing directory '' @ root @ ''\<newline>'')
                (snd (sys_stat root s0))) = Some (r1, s1) \<and>
           \<not> fst (Directory_isEmpty root s1)))"
proof (induction files arbitrary: dirty s)
  case Nil
  then show ?case by simp
next
  case (Cons root roots)
  let ?found = "\<lambda>files dirty s. \<exists>pre root post d0 s0 r1 s1. files = pre @ root # post \<and>
           main_loop depth config pre dirty s = Some (d0, s0) \<and>
           snd (fst (sys_stat root s0)) \<and>
           Directory_process depth config root
             (Runtime_verbose config (''Processing directory '' @ root @ ''\<newline>'')
                (snd (sys_stat root s0))) = Some (r1, s1) \<and>
           \<not> fst (Directory_isEmpty root s1)"
  obtain rc isdir s1 where st: "sys_stat root s = ((rc, isdir), s1)"
    by (cases "sys_stat root s") auto
  show ?case
  proof (cases isdir)
    case True
    let ?s1 = "Runtime_verbose config (''Processing directory '' @ root @ ''\<newline>'') s1"
    from Cons.prems st True obtain r s2 where
      dp: "Directory_process depth config root ?s1 = Some (r, s2)"
      by (auto split: option.splits)
    obtain e s3 where ie: "Directory_isEmpty root s2 = (e, s3)"
      by (cases "Directory_isEmpty root s2")
    have step: "main_loop depth config (root # fs') dirty s =
        main_loop depth config fs' (dirty \<or> \<not> e) s3" for fs'
      using st True dp ie by (cases e) simp_all
    from Cons.prems step have "main_loop depth config roots (dirty \<or> \<not> e) s3 = Some (d, s')"
      by simp
    from Cons.IH [OF this] have IH: "d \<longleftrightarrow> (dirty \<or> \<not> e) \<or> ?found roots (dirty \<or> \<not> e) s3" .
    have here: "?found (root # roots) dirty s" if "\<not> e"
    proof -
      have "root # roots = [] @ root # roots \<and>
           main_loop depth config [] dirty s = Some (dirty, s) \<and>
           snd (fst (sys_stat root s)) \<and>
           Directory_process depth config root
             (Runtime_verbose config (''Processing directory '' @ root @ ''\<newline>'')
                (snd (sys_stat root s))) = Some (r, s2) \<and>
           \<not> fst (Directory_isEmpty root s2)"
        using st True dp ie that by simp
      then show ?thesis by blast
    qed
    have later: "?found (root # roots) dirty s" if "?found roots (dirty \<or> \<not> e) s3"
    proof -
      from that obtain pre root' post d0 s0 r1 s1' where f: "roots = pre @ root' # post"
           "main_loop depth config pre (dirty \<or> \<not> e) s3 = Some (d0, s0)"
           "snd (fst (sys_stat root' s0))"
           "Directory_process depth config root'
             (Runtime_verbose config (''Processing directory '' @ root' @ ''\<newline>'')
                (snd (sys_stat root' s0))) = Some (r1, s1')"
           "\<not> fst (Directory_isEmpty root' s1')" by blast
      have "root # roots = (root # pre) @ root' # post \<and>
           main_loop depth config (root # pre) dirty s = Some (d0, s0) \<and>
           snd (fst (sys_stat root' s0)) \<and>
           Directory_process depth config root'
             (Runtime_verbose config (''Processing directory '' @ root' @ ''\<newline>'')
                (snd (sys_stat root' s0))) = Some (r1, s1') \<and>
           \<not> fst (Directory_isEmpty root' s1')"
        using f step [of pre] by simp
      then show ?thesis by blast
    qed
    have rev: "\<not> e \<or> ?found roots (dirty \<or> \<not> e) s3" if "?found (root # roots) dirty s"
    proof -
      from that obtain pre root' post d0 s0 r1 s1' where f: "root # roots = pre @ root' # post"
           "main_loop depth config pre dirty s = Some (d0, s0)"
           "snd (fst (sys_stat root' s0))"
           "Directory_process depth config root'
             (Runtime_verbose config (''Processing directory '' @ root' @ ''\<newline>'')
                (snd (sys_stat root' s0))) = Some (r1, s1')"
           "\<not> fst (Directory_isEmpty root' s1')" by blast
      show ?thesis
      proof (cases pre)
        case Nil
        with f have "root' = root" "s0 = s" by simp_all
        with f st dp ie show ?thesis by simp
      next
        case (Cons a pre')
        with f(1) have eq: "a = root" "roots = pre' @ root' # post" by simp_all
        from f(2) Cons eq(1) step [of pre']
        have "main_loop depth config pre' (dirty \<or> \<not> e) s3 = Some (d0, s0)" by simp
        with eq(2) f(3-5) show ?thesis by blast
      qed
    qed
    from IH here later rev show ?thesis by blast
  next
    case False
    let ?s1 = "Runtime_verbose config (''Processing node '' @ root @ ''\<newline>'') s1"
    obtain r s2 where fp: "File_process config root ?s1 = (r, s2)"
      by (cases "File_process config root ?s1")
    have step: "main_loop depth config (root # fs') dirty s =
        main_loop depth config fs' dirty s2" for fs'
      using st False fp by simp
    from Cons.prems step have "main_loop depth config roots dirty s2 = Some (d, s')" by simp
    from Cons.IH [OF this] have IH: "d \<longleftrightarrow> dirty \<or> ?found roots dirty s2" .
    have later: "?found (root # roots) dirty s" if "?found roots dirty s2"
    proof -
      from that obtain pre root' post d0 s0 r1 s1' where f: "roots = pre @ root' # post"
           "main_loop depth config pre dirty s2 = Some (d0, s0)"
           "snd (fst (sys_stat root' s0))"
           "Directory_process depth config root'
             (Runtime_verbose config (''Processing directory '' @ root' @ ''\<newline>'')
                (snd (sys_stat root' s0))) = Some (r1, s1')"
           "\<not> fst (Directory_isEmpty root' s1')" by blast
      have "root # roots = (root # pre) @ root' # post \<and>
           main_loop depth config (root # pre) dirty s = Some (d0, s0) \<and>
           snd (fst (sys_stat root' s0)) \<and>
           Directory_process depth config root'
             (Runtime_verbose config (''Processing directory '' @ root' @ ''\<newline>'')
                (snd (sys_stat root' s0))) = Some (r1, s1') \<and>
           \<not> fst (Directory_isEmpty root' s1')"
        using f step [of pre] by simp
      then show ?thesis by blast
    qed
    have rev: "?found roots dirty s2" if "?found (root # roots) dirty s"
    proof -
      from that obtain pre root' post d0 s0 r1 s1' where f: "root # roots = pre @ root' # post"
           "main_loop depth config pre dirty s = Some (d0, s0)"
           "snd (fst (sys_stat root' s0))"
           "Directory_process depth config root'
             (Runtime_verbose config (''Processing directory '' @ root' @ ''\<newline>'')
                (snd (sys_stat root' s0))) = Some (r1, s1')"
           "\<not> fst (Directory_isEmpty root' s1')" by blast
      show ?thesis
      proof (cases pre)
        case Nil
        with f have "root' = root" "s0 = s" by simp_all
        with f(3) st False show ?thesis by simp
      next
        case (Cons a pre')
        with f(1) have eq: "a = root" "roots = pre' @ root' # post" by simp_all
        from f(2) Cons eq(1) step [of pre']
        have "main_loop depth config pre' dirty s2 = Some (d0, s0)" by simp
        with eq(2) f(3-5) show ?thesis by blast
      qed
    qed
    from IH later rev show ?thesis by blast
  qed
qed

text \<open>
  Claim C8 says that the exit status is 0 when no processed root directory remains
  non-empty after the run. The emptiness of a root is checked right after that root
  was processed, and what a later root argument removes is not seen. Here the first
  root keeps a fifo, as special files are preserved in the walk; the second root is
  that fifo, which is removed as a file matching a rule. The status is \<open>ENOTEMPTY\<close>
  and the one root directory is empty after the run.
\<close>

theorem exit_status_later_root_counterexample:
  "\<exists>s'. main 5 special_example ''scrub'' [''r'', ''r/p.tmp''] fifo_world = Some (ENOTEMPTY, s') \<and>
      fs s' = Dir True True True [(''r'', Dir True True True [])] \<and>
      resolve (fs s') ''r'' = Inr (Dir True True True []) \<and> stderr s' = []"
proof -
  have "map_option (\<lambda>x. (fst x, fs (snd x), resolve (fs (snd x)) ''r'', stderr (snd x)))
      (main 5 special_example ''scrub'' [''r'', ''r/p.tmp''] fifo_world) =
    Some (ENOTEMPTY, Dir True True True [(''r'', Dir True True True [])],
          Inr (Dir True True True []), [])"
    by code_simp
  then show ?thesis by auto
qed

text \<open>
  Claim C8, amended. A run returns, with status 0 or \<open>ENOTEMPTY\<close>. The status is
  \<open>ENOTEMPTY\<close> exactly when there is a root argument such that, in the state the run
  has reached when the roots before it have been processed, \<open>stat\<close> reports a directory
  and, right after \<open>Directory_process\<close> has returned from it, the root is not a directory
  that can be opened and has no entry. What the roots after it remove is not taken
  into account. For a run over one root that is a directory this reads on the tree
  the run leaves: the status is 0 exactly when the root is then a directory that can be
  opened and has no entry. So it does for a run over several roots, when every root
  names a directory by the names of the directories that lead to it, no root lies
  inside another, and no symbolic link below a root has a name that matches a rule:
  the status is 0 exactly when, in the tree the run leaves, every root is a directory
  that can be opened and has no entry.
\<close>

theorem exit_status_reports_dirty_roots:
  assumes "wf_node (fs s)" "height (fs s) < depth" "files \<noteq> []"
  shows
   "(\<exists>r s'. main depth config imageName files s = Some (r, s') \<and>
        (r = 0 \<or> r = ENOTEMPTY) \<and>
        (r = ENOTEMPTY \<longleftrightarrow>
           (\<exists>pre root post d0 s0 r1 s1. files = pre @ root # post \<and>
              main_loop depth config pre False s = Some (d0, s0) \<and>
              snd (fst (sys_stat root s0)) \<and>
              Directory_process depth config root
                (Runtime_verbose config (''Processing directory '' @ root @ ''\<newline>'')
                   (snd (sys_stat root s0))) = Some (r1, s1) \<and>
              \<not> (\<exists>w t. resolve (fs s1) root = Inr (Dir True w t []))))) \<and>
    (files = [root] \<and> (\<exists>n. resolve (fs s) root = Inr n \<and> is_dir n) \<longrightarrow>
       (\<exists>r s'. main depth config imageName files s = Some (r, s') \<and>
          r = (if \<exists>w t. resolve (fs s') root = Inr (Dir True w t []) then 0 else ENOTEMPTY))) \<and>
    ((\<forall>root \<in> set files. root_dir config (fs s) root) \<and> roots_unnested files \<longrightarrow>
       (\<exists>r s'. main depth config imageName files s = Some (r, s') \<and>
          (r = 0 \<longleftrightarrow>
             (\<forall>root \<in> set files. \<exists>w t. resolve (fs s') root = Inr (Dir True w t [])))))"
proof (intro conjI)
  from main_loop_total [OF assms(1,2), of config files False] obtain d s' where
    ml: "main_loop depth config files False s = Some (d, s')" by blast
  from ml assms(3) have m: "main depth config imageName files s =
      Some (if d then ENOTEMPTY else 0, s')"
    by (simp add: main_def ENONE_def)
  have ne: "ENOTEMPTY \<noteq> 0" by (simp add: ENOTEMPTY_def)
  from main_loop_dirty [OF ml] have "d \<longleftrightarrow>
        (\<exists>pre root post d0 s0 r1 s1. files = pre @ root # post \<and>
           main_loop depth config pre False s = Some (d0, s0) \<and>
           snd (fst (sys_stat root s0)) \<and>
           Directory_process depth config root
             (Runtime_verbose config (''Processing directory '' @ root @ ''\<newline>'')
                (snd (sys_stat root s0))) = Some (r1, s1) \<and>
           \<not> (\<exists>w t. resolve (fs s1) root = Inr (Dir True w t [])))"
    unfolding Directory_isEmpty_iff by simp
  with m ne show "\<exists>r s'. main depth config imageName files s = Some (r, s') \<and>
        (r = 0 \<or> r = ENOTEMPTY) \<and>
        (r = ENOTEMPTY \<longleftrightarrow>
           (\<exists>pre root post d0 s0 r1 s1. files = pre @ root # post \<and>
              main_loop depth config pre False s = Some (d0, s0) \<and>
              snd (fst (sys_stat root s0)) \<and>
              Directory_process depth config root
                (Runtime_verbose config (''Processing directory '' @ root @ ''\<newline>'')
                   (snd (sys_stat root s0))) = Some (r1, s1) \<and>
              \<not> (\<exists>w t. resolve (fs s1) root = Inr (Dir True w t []))))"
    by (cases d) simp_all
next
  show "files = [root] \<and> (\<exists>n. resolve (fs s) root = Inr n \<and> is_dir n) \<longrightarrow>
       (\<exists>r s'. main depth config imageName files s = Some (r, s') \<and>
          r = (if \<exists>w t. resolve (fs s') root = Inr (Dir True w t []) then 0 else ENOTEMPTY))"
  proof
    assume a: "files = [root] \<and> (\<exists>n. resolve (fs s) root = Inr n \<and> is_dir n)"
    then obtain n where n: "resolve (fs s) root = Inr n" "is_dir n" by blast
    then have st: "sys_stat root s = ((0, True), s)" by (simp add: sys_stat_def)
    let ?s1 = "Runtime_verbose config (''Processing directory '' @ root @ ''\<newline>'') s"
    have "wf_node (fs ?s1)" "hat_path (fs ?s1) root < depth"
      using assms(1,2) by (simp_all add: hat_less_height)
    then obtain r s2 where dp: "Directory_process depth config root ?s1 = Some (r, s2)"
      using Directory_process_total by blast
    obtain e s3 where ie: "Directory_isEmpty root s2 = (e, s3)"
      by (cases "Directory_isEmpty root s2")
    then have fs3: "fs s3 = fs s2" by (rule Directory_isEmpty_fs)
    have e: "e \<longleftrightarrow> (\<exists>w t. resolve (fs s3) root = Inr (Dir True w t []))"
      using Directory_isEmpty_iff [of root s2] ie fs3 by simp
    have "main depth config imageName [root] s = Some (if \<not> e then ENOTEMPTY else 0, s3)"
      using st dp ie by (simp add: main_def ENONE_def)
    with a e show "\<exists>r s'. main depth config imageName files s = Some (r, s') \<and>
          r = (if \<exists>w t. resolve (fs s') root = Inr (Dir True w t []) then 0 else ENOTEMPTY)"
      by auto
  qed
next
  show "(\<forall>root \<in> set files. root_dir config (fs s) root) \<and> roots_unnested files \<longrightarrow>
       (\<exists>r s'. main depth config imageName files s = Some (r, s') \<and>
          (r = 0 \<longleftrightarrow>
             (\<forall>root \<in> set files. \<exists>w t. resolve (fs s') root = Inr (Dir True w t []))))"
  proof
    assume a: "(\<forall>root \<in> set files. root_dir config (fs s) root) \<and> roots_unnested files"
    then have rd: "\<forall>root \<in> set files. root_dir config (fs s) root" and ap: "roots_unnested files"
      by simp_all
    let ?D = "\<lambda>root. node_at (fs s) (location root)"
    from main_loop_first [OF assms(1,2) rd ap, of False] obtain s' where
      m: "main_loop depth config files False s =
             Some (\<exists>root \<in> set files. root_dirty config root (?D root), s')"
      and sh: "shrinks (fs s) (fs s')"
      and l: "\<forall>root \<in> set files. path_lookup (fs s') (location root) =
           Inr (fst (walk config root (?D root)))" by auto
    have wf': "wf_node (fs s')" using sh assms(1) by (rule shrinks_wf)
    have each: "root_dirty config root (?D root) \<longleftrightarrow>
        \<not> (\<exists>w t. resolve (fs s') root = Inr (Dir True w t []))" if "root \<in> set files" for root
    proof -
      define d where "d = fst (walk config root (?D root))"
      from l that have pl: "path_lookup (fs s') (location root) = Inr d" by (simp add: d_def)
      then have n: "node_at (fs s') (location root) = d" by (simp add: node_at_def)
      from rd l that have "root_dir config (fs s') root"
        using root_dir_walked(1) [OF assms(1), of config root "fs s'"] by blast
      from root_dir_at_dir [OF wf' this] n have "at_dir s' root d" "is_dir d" by simp_all
      then have res: "resolve (fs s') root = Inr d" by (rule at_dir_resolve)
      from \<open>is_dir d\<close> obtain r w t es where dd: "d = Dir r w t es" by (cases d) auto
      show ?thesis unfolding res root_dirty_def d_def [symmetric] by (auto simp: dd)
    qed
    have ne: "ENOTEMPTY \<noteq> 0" by (simp add: ENOTEMPTY_def)
    from main_Some [OF assms(3) m] each ne
    show "\<exists>r s'. main depth config imageName files s = Some (r, s') \<and>
          (r = 0 \<longleftrightarrow>
             (\<forall>root \<in> set files. \<exists>w t. resolve (fs s') root = Inr (Dir True w t [])))"
      by auto
  qed
qed

theorem exit_status_reports_dirty_roots_witness:
  "(\<exists>s'. main 5 tmp_example ''scrub'' [''root''] cascade_world = Some (0, s') \<and>
      resolve (fs s') ''root'' = Inr (Dir True True True [])) \<and>
   (\<exists>s'. main 5 tmp_example ''scrub'' [''r''] plain_world = Some (ENOTEMPTY, s') \<and>
      resolve (fs s') ''r'' = Inr (Dir True True True [(''keep.txt'', File Regular)])) \<and>
   (\<exists>pre root post d0 s0 r1 s1. [''r'', ''r/p.tmp''] = pre @ root # post \<and>
      main_loop 5 special_example pre False fifo_world = Some (d0, s0) \<and>
      snd (fst (sys_stat root s0)) \<and>
      Directory_process 5 special_example root
        (Runtime_verbose special_example (''Processing directory '' @ root @ ''\<newline>'')
           (snd (sys_stat root s0))) = Some (r1, s1) \<and>
      \<not> (\<exists>w t. resolve (fs s1) root = Inr (Dir True w t []))) \<and>
   (\<exists>s'. main 5 tmp_example ''scrub'' [''r/a'', ''r/sub''] plain_world = Some (0, s') \<and>
      resolve (fs s') ''r/a'' = Inr (Dir True True True []) \<and>
      resolve (fs s') ''r/sub'' = Inr (Dir True True True []))"
proof -
  have ok1: "wf_node (fs cascade_world)" "height (fs cascade_world) < 5" by code_simp+
  have ok2: "wf_node (fs plain_world)" "height (fs plain_world) < 5" by code_simp+
  have ok3: "wf_node (fs fifo_world)" "height (fs fifo_world) < 5" by code_simp+
  have d1: "[''root''] = [''root''] \<and> (\<exists>n. resolve (fs cascade_world) ''root'' = Inr n \<and> is_dir n)"
  proof -
    have "case resolve (fs cascade_world) ''root'' of Inr n \<Rightarrow> is_dir n | Inl e \<Rightarrow> False"
      by code_simp
    then show ?thesis by (auto split: sum.splits)
  qed
  have d2: "[''r''] = [''r''] \<and> (\<exists>n. resolve (fs plain_world) ''r'' = Inr n \<and> is_dir n)"
  proof -
    have "case resolve (fs plain_world) ''r'' of Inr n \<Rightarrow> is_dir n | Inl e \<Rightarrow> False"
      by code_simp
    then show ?thesis by (auto split: sum.splits)
  qed
  have t1: "map_option (\<lambda>x. resolve (fs (snd x)) ''root'')
      (main 5 tmp_example ''scrub'' [''root''] cascade_world) = Some (Inr (Dir True True True []))"
    by code_simp
  have t2: "map_option (\<lambda>x. resolve (fs (snd x)) ''r'')
      (main 5 tmp_example ''scrub'' [''r''] plain_world)
        = Some (Inr (Dir True True True [(''keep.txt'', File Regular)]))"
    by code_simp
  have t3: "map_option fst (main 5 special_example ''scrub'' [''r'', ''r/p.tmp''] fifo_world)
        = Some ENOTEMPTY"
    by code_simp
  from exit_status_reports_dirty_roots [OF ok1, where files = "[''root'']" and root = "''root''"
      and config = tmp_example and imageName = "''scrub''"] d1
  obtain r s' where m1: "main 5 tmp_example ''scrub'' [''root''] cascade_world = Some (r, s')"
    "r = (if \<exists>w t. resolve (fs s') ''root'' = Inr (Dir True w t []) then 0 else ENOTEMPTY)"
    by blast
  from m1(1) t1 have r1: "resolve (fs s') ''root'' = Inr (Dir True True True [])" by simp
  with m1 have A: "\<exists>s'. main 5 tmp_example ''scrub'' [''root''] cascade_world = Some (0, s') \<and>
      resolve (fs s') ''root'' = Inr (Dir True True True [])" by auto
  from exit_status_reports_dirty_roots [OF ok2, where files = "[''r'']" and root = "''r''"
      and config = tmp_example and imageName = "''scrub''"] d2
  obtain r' s'' where m2: "main 5 tmp_example ''scrub'' [''r''] plain_world = Some (r', s'')"
    "r' = (if \<exists>w t. resolve (fs s'') ''r'' = Inr (Dir True w t []) then 0 else ENOTEMPTY)"
    by blast
  from m2(1) t2 have r2: "resolve (fs s'') ''r'' = Inr (Dir True True True [(''keep.txt'', File Regular)])"
    by simp
  with m2 have B: "\<exists>s'. main 5 tmp_example ''scrub'' [''r''] plain_world = Some (ENOTEMPTY, s') \<and>
      resolve (fs s') ''r'' = Inr (Dir True True True [(''keep.txt'', File Regular)])" by auto
  have ne: "[''r'', ''r/p.tmp''] \<noteq> []" by simp
  from exit_status_reports_dirty_roots [OF ok3 ne, where config = special_example
      and imageName = "''scrub''", THEN conjunct1]
  obtain r3 s3 where m3: "main 5 special_example ''scrub'' [''r'', ''r/p.tmp''] fifo_world = Some (r3, s3)"
    "r3 = ENOTEMPTY \<longleftrightarrow>
           (\<exists>pre root post d0 s0 r1 s1. [''r'', ''r/p.tmp''] = pre @ root # post \<and>
              main_loop 5 special_example pre False fifo_world = Some (d0, s0) \<and>
              snd (fst (sys_stat root s0)) \<and>
              Directory_process 5 special_example root
                (Runtime_verbose special_example (''Processing directory '' @ root @ ''\<newline>'')
                   (snd (sys_stat root s0))) = Some (r1, s1) \<and>
              \<not> (\<exists>w t. resolve (fs s1) root = Inr (Dir True w t [])))"
    by blast
  from m3(1) t3 have "r3 = ENOTEMPTY" by simp
  with m3(2) have C: "\<exists>pre root post d0 s0 r1 s1. [''r'', ''r/p.tmp''] = pre @ root # post \<and>
      main_loop 5 special_example pre False fifo_world = Some (d0, s0) \<and>
      snd (fst (sys_stat root s0)) \<and>
      Directory_process 5 special_example root
        (Runtime_verbose special_example (''Processing directory '' @ root @ ''\<newline>'')
           (snd (sys_stat root s0))) = Some (r1, s1) \<and>
      \<not> (\<exists>w t. resolve (fs s1) root = Inr (Dir True w t []))" by simp
  have d4a: "root_dir tmp_example (fs plain_world) ''r/a''" by code_simp
  have d4b: "root_dir tmp_example (fs plain_world) ''r/sub''" by code_simp
  have a4: "roots_unnested [''r/a'', ''r/sub'']" by code_simp
  from d4a d4b a4 have d4:
    "(\<forall>root \<in> set [''r/a'', ''r/sub'']. root_dir tmp_example (fs plain_world) root) \<and>
       roots_unnested [''r/a'', ''r/sub'']" by simp
  have ne4: "[''r/a'', ''r/sub''] \<noteq> []" by simp
  have t4: "map_option (\<lambda>x. (resolve (fs (snd x)) ''r/a'', resolve (fs (snd x)) ''r/sub''))
      (main 5 tmp_example ''scrub'' [''r/a'', ''r/sub''] plain_world)
        = Some (Inr (Dir True True True []), Inr (Dir True True True []))"
    by code_simp
  from exit_status_reports_dirty_roots [OF ok2 ne4, where config = tmp_example
      and imageName = "''scrub''", THEN conjunct2, THEN conjunct2] d4
  obtain r4 s4 where m4: "main 5 tmp_example ''scrub'' [''r/a'', ''r/sub''] plain_world = Some (r4, s4)"
    "r4 = 0 \<longleftrightarrow>
       (\<forall>root \<in> set [''r/a'', ''r/sub'']. \<exists>w t. resolve (fs s4) root = Inr (Dir True w t []))"
    by blast
  from m4(1) t4 have r4: "resolve (fs s4) ''r/a'' = Inr (Dir True True True [])"
    "resolve (fs s4) ''r/sub'' = Inr (Dir True True True [])" by simp_all
  with m4 have D: "\<exists>s'. main 5 tmp_example ''scrub'' [''r/a'', ''r/sub''] plain_world = Some (0, s') \<and>
      resolve (fs s') ''r/a'' = Inr (Dir True True True []) \<and>
      resolve (fs s') ''r/sub'' = Inr (Dir True True True [])" by auto
  from A B C D show ?thesis by blast
qed

section \<open>Running the tool twice (claim C9)\<close>

text \<open>
  Claim C9 says that a second run of the tool on the tree a first run left, with the
  same configuration, changes nothing and produces no errors. The runs below show what
  a second run can do. A root argument that is a file matching a rule is removed by
  the first run, silently; the second run no longer finds it and reports that it could
  not unlink it, or that it could not open it when the buffer \<open>stat\<close> left untouched
  reads as a directory. What the first run could not remove, here the entries of a
  directory without write permission, the second run cannot remove either, and it
  reports so again. A root directory with a name matching a rule that lies inside
  another root is removed in the walk of that root, and the second run reports that it
  could not unlink it. A symbolic link to a directory with a name matching a rule
  cannot be removed as long as the directory is there: the first run reports that and
  then removes the directory, the second run removes the link, so that it changes the
  tree and returns another status. A root path through \<open>".."\<close> loses its meaning when
  the directory before the \<open>".."\<close> is removed: the first run fails on the entries that
  follow, the second does nothing. So does a root path through a symbolic link whose
  target passes through a directory the walk removes: the first run cannot open the
  root for the emptiness check and returns \<open>ENOTEMPTY\<close>, the second finds no directory
  and returns 0.
\<close>

theorem second_run_errors_counterexample:
  "(\<exists>r1 s1 r2 s2. main 5 tmp_example ''scrub'' [''r/x.tmp''] plain_world = Some (r1, s1) \<and>
      stderr s1 = [] \<and> resolve (fs s1) ''r/x.tmp'' = Inl ENOENT \<and>
      main 5 tmp_example ''scrub'' [''r/x.tmp''] s1 = Some (r2, s2) \<and>
      stderr s2 = [''Could not unlink r/x.tmp: ERRNO 2\<newline>'']) \<and>
   (\<exists>r1 s1 r2 s2.
      main 5 tmp_example ''scrub'' [''r/x.tmp''] (plain_world\<lparr>junk := \<lambda>n. True\<rparr>) = Some (r1, s1) \<and>
      stderr s1 = [] \<and> resolve (fs s1) ''r/x.tmp'' = Inl ENOENT \<and>
      main 5 tmp_example ''scrub'' [''r/x.tmp''] s1 = Some (r2, s2) \<and>
      stderr s2 = [''Directory_isEmpty(r/x.tmp): could not open directory: ERRNO 2\<newline>'']) \<and>
   (\<exists>r1 s1 r2 s2. main 5 tmp_example ''scrub'' [''r''] readonly_world = Some (r1, s1) \<and>
      stderr s1 = [''Could not unlink r/x.tmp: ERRNO 13\<newline>'',
                   ''Could not unlink directory r/sub: ERRNO 13\<newline>''] \<and>
      main 5 tmp_example ''scrub'' [''r''] s1 = Some (r2, s2) \<and>
      stderr s2 = [''Could not unlink r/x.tmp: ERRNO 13\<newline>'',
                   ''Could not unlink directory r/sub: ERRNO 13\<newline>'',
                   ''Could not unlink r/x.tmp: ERRNO 13\<newline>'',
                   ''Could not unlink directory r/sub: ERRNO 13\<newline>'']) \<and>
   (\<exists>s1 s2. main 5 tmp_example ''scrub'' [''r/a.tmp'', ''r''] nested_world = Some (0, s1) \<and>
      stderr s1 = [] \<and>
      main 5 tmp_example ''scrub'' [''r/a.tmp'', ''r''] s1 = Some (0, s2) \<and>
      stderr s2 = [''Could not unlink r/a.tmp: ERRNO 2\<newline>'']) \<and>
   (\<exists>s1 s2. main 5 tmp_example ''scrub'' [''r''] links_world = Some (ENOTEMPTY, s1) \<and>
      fs s1 = Dir True True True [(''r'', Dir True True True [(''z.tmp'', File (SymLink ''sub''))])] \<and>
      stderr s1 = [''Could not unlink r/z.tmp: ERRNO 20\<newline>''] \<and>
      main 5 tmp_example ''scrub'' [''r''] s1 = Some (0, s2) \<and>
      fs s2 = Dir True True True [(''r'', Dir True True True [])] \<and>
      stderr s2 = stderr s1) \<and>
   (\<exists>s1 s2. main 5 tmp_example ''scrub'' [''r/a/..''] dotdot_world = Some (ENOTEMPTY, s1) \<and>
      stderr s1 = [''Could not unlink r/a/../x.tmp: ERRNO 2\<newline>'',
                   ''Directory_isEmpty(r/a/..): could not open directory: ERRNO 2\<newline>''] \<and>
      main 5 tmp_example ''scrub'' [''r/a/..''] s1 = Some (0, s2) \<and>
      stderr s2 = stderr s1) \<and>
   (\<exists>s1 s2. main 5 tmp_example ''scrub'' [''r/l''] linked_root_world = Some (ENOTEMPTY, s1) \<and>
      stderr s1 = [''Directory_isEmpty(r/l): could not open directory: ERRNO 2\<newline>''] \<and>
      main 5 tmp_example ''scrub'' [''r/l''] s1 = Some (0, s2) \<and>
      stderr s2 = stderr s1)"
proof -
  have a: "Option.bind (main 5 tmp_example ''scrub'' [''r/x.tmp''] plain_world)
       (\<lambda>x. map_option (\<lambda>y. (stderr (snd x), resolve (fs (snd x)) ''r/x.tmp'', stderr (snd y)))
               (main 5 tmp_example ''scrub'' [''r/x.tmp''] (snd x)))
     = Some ([], Inl ENOENT, [''Could not unlink r/x.tmp: ERRNO 2\<newline>''])"
    by code_simp
  have c: "Option.bind (main 5 tmp_example ''scrub'' [''r/x.tmp''] (plain_world\<lparr>junk := \<lambda>n. True\<rparr>))
       (\<lambda>x. map_option (\<lambda>y. (stderr (snd x), resolve (fs (snd x)) ''r/x.tmp'', stderr (snd y)))
               (main 5 tmp_example ''scrub'' [''r/x.tmp''] (snd x)))
     = Some ([], Inl ENOENT,
         [''Directory_isEmpty(r/x.tmp): could not open directory: ERRNO 2\<newline>''])"
    by code_simp
  have b: "Option.bind (main 5 tmp_example ''scrub'' [''r''] readonly_world)
       (\<lambda>x. map_option (\<lambda>y. (stderr (snd x), stderr (snd y)))
               (main 5 tmp_example ''scrub'' [''r''] (snd x)))
     = Some ([''Could not unlink r/x.tmp: ERRNO 13\<newline>'',
              ''Could not unlink directory r/sub: ERRNO 13\<newline>''],
             [''Could not unlink r/x.tmp: ERRNO 13\<newline>'',
              ''Could not unlink directory r/sub: ERRNO 13\<newline>'',
              ''Could not unlink r/x.tmp: ERRNO 13\<newline>'',
              ''Could not unlink directory r/sub: ERRNO 13\<newline>''])"
    by code_simp
  have d: "Option.bind (main 5 tmp_example ''scrub'' [''r/a.tmp'', ''r''] nested_world)
       (\<lambda>x. map_option (\<lambda>y. (fst x, stderr (snd x), fst y, stderr (snd y)))
               (main 5 tmp_example ''scrub'' [''r/a.tmp'', ''r''] (snd x)))
     = Some (0, [], 0, [''Could not unlink r/a.tmp: ERRNO 2\<newline>''])"
    by code_simp
  have e: "Option.bind (main 5 tmp_example ''scrub'' [''r''] links_world)
       (\<lambda>x. map_option (\<lambda>y. (fst x, fs (snd x), stderr (snd x), fst y, fs (snd y), stderr (snd y)))
               (main 5 tmp_example ''scrub'' [''r''] (snd x)))
     = Some (ENOTEMPTY,
         Dir True True True [(''r'', Dir True True True [(''z.tmp'', File (SymLink ''sub''))])],
         [''Could not unlink r/z.tmp: ERRNO 20\<newline>''], 0,
         Dir True True True [(''r'', Dir True True True [])],
         [''Could not unlink r/z.tmp: ERRNO 20\<newline>''])"
    by code_simp
  have f: "Option.bind (main 5 tmp_example ''scrub'' [''r/a/..''] dotdot_world)
       (\<lambda>x. map_option (\<lambda>y. (fst x, stderr (snd x), fst y, stderr (snd y)))
               (main 5 tmp_example ''scrub'' [''r/a/..''] (snd x)))
     = Some (ENOTEMPTY,
         [''Could not unlink r/a/../x.tmp: ERRNO 2\<newline>'',
          ''Directory_isEmpty(r/a/..): could not open directory: ERRNO 2\<newline>''], 0,
         [''Could not unlink r/a/../x.tmp: ERRNO 2\<newline>'',
          ''Directory_isEmpty(r/a/..): could not open directory: ERRNO 2\<newline>''])"
    by code_simp
  have g: "Option.bind (main 5 tmp_example ''scrub'' [''r/l''] linked_root_world)
       (\<lambda>x. map_option (\<lambda>y. (fst x, stderr (snd x), fst y, stderr (snd y)))
               (main 5 tmp_example ''scrub'' [''r/l''] (snd x)))
     = Some (ENOTEMPTY,
         [''Directory_isEmpty(r/l): could not open directory: ERRNO 2\<newline>''], 0,
         [''Directory_isEmpty(r/l): could not open directory: ERRNO 2\<newline>''])"
    by code_simp
  from a have A: "\<exists>r1 s1 r2 s2. main 5 tmp_example ''scrub'' [''r/x.tmp''] plain_world = Some (r1, s1) \<and>
      stderr s1 = [] \<and> resolve (fs s1) ''r/x.tmp'' = Inl ENOENT \<and>
      main 5 tmp_example ''scrub'' [''r/x.tmp''] s1 = Some (r2, s2) \<and>
      stderr s2 = [''Could not unlink r/x.tmp: ERRNO 2\<newline>'']"
    by (auto simp: bind_eq_Some_conv)
  from c have C: "\<exists>r1 s1 r2 s2.
      main 5 tmp_example ''scrub'' [''r/x.tmp''] (plain_world\<lparr>junk := \<lambda>n. True\<rparr>) = Some (r1, s1) \<and>
      stderr s1 = [] \<and> resolve (fs s1) ''r/x.tmp'' = Inl ENOENT \<and>
      main 5 tmp_example ''scrub'' [''r/x.tmp''] s1 = Some (r2, s2) \<and>
      stderr s2 = [''Directory_isEmpty(r/x.tmp): could not open directory: ERRNO 2\<newline>'']"
    by (auto simp: bind_eq_Some_conv)
  from b have B: "\<exists>r1 s1 r2 s2. main 5 tmp_example ''scrub'' [''r''] readonly_world = Some (r1, s1) \<and>
      stderr s1 = [''Could not unlink r/x.tmp: ERRNO 13\<newline>'',
                   ''Could not unlink directory r/sub: ERRNO 13\<newline>''] \<and>
      main 5 tmp_example ''scrub'' [''r''] s1 = Some (r2, s2) \<and>
      stderr s2 = [''Could not unlink r/x.tmp: ERRNO 13\<newline>'',
                   ''Could not unlink directory r/sub: ERRNO 13\<newline>'',
                   ''Could not unlink r/x.tmp: ERRNO 13\<newline>'',
                   ''Could not unlink directory r/sub: ERRNO 13\<newline>'']"
    by (auto simp: bind_eq_Some_conv)
  from d have D: "\<exists>s1 s2. main 5 tmp_example ''scrub'' [''r/a.tmp'', ''r''] nested_world = Some (0, s1) \<and>
      stderr s1 = [] \<and>
      main 5 tmp_example ''scrub'' [''r/a.tmp'', ''r''] s1 = Some (0, s2) \<and>
      stderr s2 = [''Could not unlink r/a.tmp: ERRNO 2\<newline>'']"
    by (auto simp: bind_eq_Some_conv)
  from e have E: "\<exists>s1 s2. main 5 tmp_example ''scrub'' [''r''] links_world = Some (ENOTEMPTY, s1) \<and>
      fs s1 = Dir True True True [(''r'', Dir True True True [(''z.tmp'', File (SymLink ''sub''))])] \<and>
      stderr s1 = [''Could not unlink r/z.tmp: ERRNO 20\<newline>''] \<and>
      main 5 tmp_example ''scrub'' [''r''] s1 = Some (0, s2) \<and>
      fs s2 = Dir True True True [(''r'', Dir True True True [])] \<and>
      stderr s2 = stderr s1"
    by (auto simp: bind_eq_Some_conv)
  from f have F: "\<exists>s1 s2. main 5 tmp_example ''scrub'' [''r/a/..''] dotdot_world = Some (ENOTEMPTY, s1) \<and>
      stderr s1 = [''Could not unlink r/a/../x.tmp: ERRNO 2\<newline>'',
                   ''Directory_isEmpty(r/a/..): could not open directory: ERRNO 2\<newline>''] \<and>
      main 5 tmp_example ''scrub'' [''r/a/..''] s1 = Some (0, s2) \<and>
      stderr s2 = stderr s1"
    by (auto simp: bind_eq_Some_conv)
  from g have G: "\<exists>s1 s2.
      main 5 tmp_example ''scrub'' [''r/l''] linked_root_world = Some (ENOTEMPTY, s1) \<and>
      stderr s1 = [''Directory_isEmpty(r/l): could not open directory: ERRNO 2\<newline>''] \<and>
      main 5 tmp_example ''scrub'' [''r/l''] s1 = Some (0, s2) \<and>
      stderr s2 = stderr s1"
    by (auto simp: bind_eq_Some_conv)
  from A C B D E F G show ?thesis by blast
qed

text \<open>
  Claim C9, amended. Let every root argument name a directory by the names of the
  directories that lead to it, let no root lie inside another, and let no symbolic link
  below a root have a name that matches a rule. Then
  a second run on the tree the first run left, with the same configuration, changes
  nothing in the tree, returns the exit status of the first run and writes exactly the
  lines the first run wrote: it reports an error exactly when the first run reported
  it, and none when the first run reported none. Both runs return, whenever the depth
  allowed to the recursion exceeds the height of the tree.
\<close>

theorem second_run_repeats_first:
  assumes wf: "wf_node (fs s)" and h: "height (fs s) < depth"
    and rd: "\<forall>root \<in> set roots. root_dir config (fs s) root" and ap: "roots_unnested roots"
  shows "\<exists>r s1 s2 out. main depth config imageName roots s = Some (r, s1) \<and>
      main depth config imageName roots s1 = Some (r, s2) \<and>
      fs s2 = fs s1 \<and> stderr s1 = stderr s @ out \<and> stderr s2 = stderr s1 @ out"
proof (cases "roots = []")
  case True
  have "main depth config imageName [] t =
      Some (0, t\<lparr>stderr := stderr t @ [help_text imageName]\<rparr>)" for t
    by (simp add: main_def Runtime_printHelp_def Runtime_putError_def ENONE_def)
  with True show ?thesis by simp
next
  case False
  let ?D = "\<lambda>t root. node_at (fs t) (location root)"
  from main_loop_first [OF wf h rd ap, of False] obtain s1 where
    m1: "main_loop depth config roots False s =
           Some (\<exists>root \<in> set roots. root_dirty config root (?D s root), s1)"
    and o1: "stderr s1 = stderr s @ concat (map (\<lambda>root. root_out config root (?D s root)) roots)"
    and sh: "shrinks (fs s) (fs s1)"
    and l1: "\<forall>root \<in> set roots. path_lookup (fs s1) (location root) =
         Inr (fst (walk config root (?D s root)))" by auto
  have wf1: "wf_node (fs s1)" using sh wf by (rule shrinks_wf)
  have h1: "height (fs s1) < depth" using shrinks_height [OF sh] h by simp
  have w: "root_dir config (fs s1) root"
    "walk config root (?D s1 root) = walk config root (?D s root)"
    "fst (walk config root (?D s1 root)) = ?D s1 root" if "root \<in> set roots" for root
    using root_dir_walked [OF wf, of config root "fs s1"] rd l1 that by blast+
  have settled: "\<forall>root \<in> set roots. root_dir config (fs s1) root \<and>
      fst (walk config root (?D s1 root)) = ?D s1 root"
    using w by blast
  from main_loop_settled [OF wf1 h1 settled, of False] obtain s2 where
    m2: "main_loop depth config roots False s1 =
           Some (\<exists>root \<in> set roots. root_dirty config root (?D s1 root), s2)"
    and f2: "fs s2 = fs s1"
    and o2: "stderr s2 = stderr s1 @ concat (map (\<lambda>root. root_out config root (?D s1 root)) roots)"
    by auto
  have same_out: "root_out config root (?D s1 root) = root_out config root (?D s root)"
    and same_dirty: "root_dirty config root (?D s1 root) = root_dirty config root (?D s root)"
    if "root \<in> set roots" for root
    using w(2) [OF that] by (simp_all add: root_out_def root_dirty_def)
  have eo: "concat (map (\<lambda>root. root_out config root (?D s1 root)) roots) =
      concat (map (\<lambda>root. root_out config root (?D s root)) roots)"
    using same_out by (simp cong: map_cong)
  have ed: "(\<exists>root \<in> set roots. root_dirty config root (?D s1 root)) \<longleftrightarrow>
      (\<exists>root \<in> set roots. root_dirty config root (?D s root))"
    using same_dirty by blast
  from main_Some [OF False m1] main_Some [OF False m2] ed f2 o1 o2 eo show ?thesis
    by auto
qed

theorem second_run_repeats_first_witness:
  "(\<exists>s1 s2. main 5 tmp_example ''scrub'' [''r/a'', ''r/sub''] plain_world = Some (0, s1) \<and>
      main 5 tmp_example ''scrub'' [''r/a'', ''r/sub''] s1 = Some (0, s2) \<and>
      fs s2 = fs s1 \<and> stderr s1 = [] \<and> stderr s2 = []) \<and>
   (\<exists>s1 s2. main 5 tmp_example ''scrub'' [''r'', ''./r''] failing_world = Some (ENOTEMPTY, s1) \<and>
      main 5 tmp_example ''scrub'' [''r'', ''./r''] s1 = Some (ENOTEMPTY, s2) \<and>
      fs s2 = fs s1 \<and>
      stderr s1 = [''Could not unlink r/x.tmp: ERRNO 13\<newline>'',
                   ''Could not process directory r/locked: ERRNO 13\<newline>'',
                   ''Could not unlink directory r/sub: ERRNO 13\<newline>'',
                   ''Could not unlink directory r/a: ERRNO 13\<newline>'',
                   ''Could not unlink ./r/x.tmp: ERRNO 13\<newline>'',
                   ''Could not process directory ./r/locked: ERRNO 13\<newline>'',
                   ''Could not unlink directory ./r/sub: ERRNO 13\<newline>'',
                   ''Could not unlink directory ./r/a: ERRNO 13\<newline>''] \<and>
      stderr s2 = stderr s1 @ stderr s1)"
proof -
  have ok1: "wf_node (fs plain_world)" "height (fs plain_world) < 5" by code_simp+
  have ok2: "wf_node (fs failing_world)" "height (fs failing_world) < 5" by code_simp+
  have d1a: "root_dir tmp_example (fs plain_world) ''r/a''" by code_simp
  have d1b: "root_dir tmp_example (fs plain_world) ''r/sub''" by code_simp
  from d1a d1b have d1: "\<forall>root \<in> set [''r/a'', ''r/sub'']. root_dir tmp_example (fs plain_world) root"
    by simp
  have d2a: "root_dir tmp_example (fs failing_world) ''./r''" by code_simp
  have d2b: "root_dir tmp_example (fs failing_world) ''r''" by code_simp
  from d2a d2b have d2: "\<forall>root \<in> set [''r'', ''./r'']. root_dir tmp_example (fs failing_world) root"
    by simp
  have a1: "roots_unnested [''r/a'', ''r/sub'']" by code_simp
  have a2: "roots_unnested [''r'', ''./r'']" by code_simp
  have e1: "stderr plain_world = []" "stderr failing_world = []"
    by (simp_all add: plain_world_def failing_world_def)
  have t1: "map_option (\<lambda>x. (fst x, stderr (snd x)))
      (main 5 tmp_example ''scrub'' [''r/a'', ''r/sub''] plain_world) = Some (0, [])"
    by code_simp
  have t2: "map_option (\<lambda>x. (fst x, stderr (snd x)))
      (main 5 tmp_example ''scrub'' [''r'', ''./r''] failing_world) =
        Some (ENOTEMPTY,
              [''Could not unlink r/x.tmp: ERRNO 13\<newline>'',
               ''Could not process directory r/locked: ERRNO 13\<newline>'',
               ''Could not unlink directory r/sub: ERRNO 13\<newline>'',
               ''Could not unlink directory r/a: ERRNO 13\<newline>'',
               ''Could not unlink ./r/x.tmp: ERRNO 13\<newline>'',
               ''Could not process directory ./r/locked: ERRNO 13\<newline>'',
               ''Could not unlink directory ./r/sub: ERRNO 13\<newline>'',
               ''Could not unlink directory ./r/a: ERRNO 13\<newline>''])"
    by code_simp
  from second_run_repeats_first [OF ok1 d1 a1, of "''scrub''"] obtain r s1 s2 out where
    m1: "main 5 tmp_example ''scrub'' [''r/a'', ''r/sub''] plain_world = Some (r, s1)"
      "main 5 tmp_example ''scrub'' [''r/a'', ''r/sub''] s1 = Some (r, s2)" "fs s2 = fs s1"
      "stderr s1 = stderr plain_world @ out" "stderr s2 = stderr s1 @ out"
    by blast
  from m1 t1 e1 have A: "\<exists>s1 s2.
      main 5 tmp_example ''scrub'' [''r/a'', ''r/sub''] plain_world = Some (0, s1) \<and>
      main 5 tmp_example ''scrub'' [''r/a'', ''r/sub''] s1 = Some (0, s2) \<and>
      fs s2 = fs s1 \<and> stderr s1 = [] \<and> stderr s2 = []"
    by auto
  from second_run_repeats_first [OF ok2 d2 a2, of "''scrub''"] obtain r' s1' s2' out' where
    m2: "main 5 tmp_example ''scrub'' [''r'', ''./r''] failing_world = Some (r', s1')"
      "main 5 tmp_example ''scrub'' [''r'', ''./r''] s1' = Some (r', s2')" "fs s2' = fs s1'"
      "stderr s1' = stderr failing_world @ out'" "stderr s2' = stderr s1' @ out'"
    by blast
  from m2 t2 e1 have B: "\<exists>s1 s2.
      main 5 tmp_example ''scrub'' [''r'', ''./r''] failing_world = Some (ENOTEMPTY, s1) \<and>
      main 5 tmp_example ''scrub'' [''r'', ''./r''] s1 = Some (ENOTEMPTY, s2) \<and>
      fs s2 = fs s1 \<and>
      stderr s1 = [''Could not unlink r/x.tmp: ERRNO 13\<newline>'',
                   ''Could not process directory r/locked: ERRNO 13\<newline>'',
                   ''Could not unlink directory r/sub: ERRNO 13\<newline>'',
                   ''Could not unlink directory r/a: ERRNO 13\<newline>'',
                   ''Could not unlink ./r/x.tmp: ERRNO 13\<newline>'',
                   ''Could not process directory ./r/locked: ERRNO 13\<newline>'',
                   ''Could not unlink directory ./r/sub: ERRNO 13\<newline>'',
                   ''Could not unlink directory ./r/a: ERRNO 13\<newline>''] \<and>
      stderr s2 = stderr s1 @ stderr s1"
    by auto
  from A B show ?thesis by blast
qed

end
